theory Spec2Isabelle
  imports Complex_Main "HOL-Library.Product_Lexorder"
begin

section \<open>Model of the page-layout pipeline of \<^verbatim>\<open>scripts/pdfParsingIRCCodeBook.py\<close>\<close>

text \<open>
  Conventions of the embedding.
  \<^item> Python floats are idealised as \<^typ>\<open>real\<close>, Python ints are \<^typ>\<open>int\<close>.
  \<^item> In the section and table-label parsers text is a \<^typ>\<open>string\<close> of 8-bit characters,
    and the character classes of their regular expressions (\<^verbatim>\<open>\s\<close>, \<^verbatim>\<open>\d\<close>, \<^verbatim>\<open>\w\<close>, \<^verbatim>\<open>[A-Z]\<close>)
    and \<^verbatim>\<open>str.upper\<close> are the ASCII ones.
  \<^item> In the amendment scan text is a list of Unicode code points: the word boundary of
    \<^verbatim>\<open>AMENDMENT_RE\<close> is that of a \<^verbatim>\<open>str\<close> pattern, so the class \<^verbatim>\<open>\w\<close> of the Unicode database is a
    parameter of the scan.
  \<^item> Every \<^verbatim>\<open>raise RuntimeError(format_error(RULE, page, ...))\<close> is the value
    \<open>Inl (Err RULE page)\<close>; the detail text and the statistics of the message are dropped.
  \<^item> Each regular expression is a matcher written for that expression, following the
    order in which the backtracking engine tries its alternatives.
\<close>

subsection \<open>Errors\<close>

datatype rule =
    AMENDMENT_SCAN | TABLE_CONTINUATION | TABLE_ROTATION_AMBIGUOUS
  | COLUMN_SPLIT_MISSING | COLUMN_SPLIT_COMPETING | COLUMN_SPLIT_OFFCENTER
  | COLUMN_SPLIT_CLUSTER_MISSING | COLUMN_SPLIT_OVERLAP | COLUMN_SPLIT_CROSS
  | SECTION_DUPLICATE | SECTION_HEADER_SKIPPED | SECTION_APPEND_VIOLATION
  | PDF_PAGE_RANGE | MEDIAN_EMPTY

datatype error = Err rule "int option"

subsection \<open>Characters and strings\<close>

definition is_digit :: "char \<Rightarrow> bool" where
  "is_digit c \<longleftrightarrow> c \<in> set ''0123456789''"

definition is_upper :: "char \<Rightarrow> bool" where
  "is_upper c \<longleftrightarrow> c \<in> set ''ABCDEFGHIJKLMNOPQRSTUVWXYZ''"

definition is_lower :: "char \<Rightarrow> bool" where
  "is_lower c \<longleftrightarrow> c \<in> set ''abcdefghijklmnopqrstuvwxyz''"

definition is_alpha :: "char \<Rightarrow> bool" where
  "is_alpha c \<longleftrightarrow> is_upper c \<or> is_lower c"

definition is_word_char :: "char \<Rightarrow> bool" where
  "is_word_char c \<longleftrightarrow> is_alpha c \<or> is_digit c \<or> c = CHR ''_''"

definition upper_char :: "char \<Rightarrow> char" where
  "upper_char c =
     (case map_of (zip ''abcdefghijklmnopqrstuvwxyz'' ''ABCDEFGHIJKLMNOPQRSTUVWXYZ'') c of
        Some u \<Rightarrow> u
      | None \<Rightarrow> c)"

definition upper :: "string \<Rightarrow> string" where
  "upper s = map upper_char s"

definition literal_ci_prefix :: "string \<Rightarrow> string \<Rightarrow> bool" where
  "literal_ci_prefix k s \<longleftrightarrow> length k \<le> length s \<and> upper (take (length k) s) = upper k"

definition is_space :: "char \<Rightarrow> bool" where
  "is_space c \<longleftrightarrow>
     c \<in> set [CHR '' '', CHR 0x09, CHR 0x0A, CHR 0x0B, CHR 0x0C, CHR 0x0D,
               CHR 0x1C, CHR 0x1D, CHR 0x1E, CHR 0x1F]"

definition lstrip :: "string \<Rightarrow> string" where
  "lstrip s = dropWhile is_space s"

definition strip :: "string \<Rightarrow> string" where
  "strip s = rev (dropWhile is_space (rev (dropWhile is_space s)))"

subsection \<open>Provenance guard: \<^verbatim>\<open>AMENDMENT_RE\<close> and \<^verbatim>\<open>scan_for_amendment_indicators\<close>\<close>

text \<open>
  \<^verbatim>\<open>AMENDMENT_RE = \b(?:UTAH|STATE|AMENDED|MODIFIED|AMENDMENTS)\b\<close> is compiled from a
  \<^verbatim>\<open>str\<close> pattern with \<^verbatim>\<open>re.IGNORECASE\<close> and without \<^verbatim>\<open>re.ASCII\<close>. Text is therefore a list of
  Unicode code points, and two things are Python's:
  \<^item> the class \<^verbatim>\<open>\w\<close>, which decides \<^verbatim>\<open>\b\<close>: the alphanumeric code points of the Unicode
    database and the underscore. It is the parameter \<open>wc\<close> of the scan;
  \<^item> what an uppercase ASCII letter of the pattern matches under \<^verbatim>\<open>IGNORECASE\<close>: the letter,
    its lowercase, and the code points outside ASCII that the engine folds to it, which
    are U+0130 and U+0131 for \<^verbatim>\<open>I\<close> and U+017F for \<^verbatim>\<open>S\<close> (\<open>ignorecase_literal\<close>).
\<close>

type_synonym codepoint = nat

definition code_of :: "char \<Rightarrow> codepoint" where
  "code_of c = of_char c"

definition codes :: "string \<Rightarrow> codepoint list" where
  "codes s = map code_of s"

definition ignorecase_literal :: "char \<Rightarrow> codepoint \<Rightarrow> bool" where
  "ignorecase_literal k c \<longleftrightarrow>
     c = code_of k \<or> c = code_of k + 32
     \<or> (k = CHR ''I'' \<and> (c = 0x130 \<or> c = 0x131))
     \<or> (k = CHR ''S'' \<and> c = 0x17F)"

definition ignorecase_word :: "string \<Rightarrow> codepoint list \<Rightarrow> bool" where
  "ignorecase_word k w \<longleftrightarrow> list_all2 ignorecase_literal k w"

definition word_boundary :: "(codepoint \<Rightarrow> bool) \<Rightarrow> codepoint option \<Rightarrow> codepoint option \<Rightarrow> bool" where
  "word_boundary wc p n \<longleftrightarrow>
     (case p of None \<Rightarrow> False | Some c \<Rightarrow> wc c)
       \<noteq> (case n of None \<Rightarrow> False | Some c \<Rightarrow> wc c)"

definition first_char :: "codepoint list \<Rightarrow> codepoint option" where
  "first_char s = (case s of [] \<Rightarrow> None | c # _ \<Rightarrow> Some c)"

definition AMENDMENT_WORDS :: "string list" where
  "AMENDMENT_WORDS = [''UTAH'', ''STATE'', ''AMENDED'', ''MODIFIED'', ''AMENDMENTS'']"

text \<open>
  \<open>amendment_match_at wc prev s k\<close>: the alternative \<open>k\<close> matches at the start of \<open>s\<close>, with a
  word boundary before it (\<open>prev\<close> is the code point before \<open>s\<close>) and after it.
  \<open>AMENDMENT_RE_search\<close> is \<^verbatim>\<open>search\<close>: it scans from left to right, tries the alternatives in
  their order at each position, and returns the matched text.
\<close>

definition amendment_match_at ::
  "(codepoint \<Rightarrow> bool) \<Rightarrow> codepoint option \<Rightarrow> codepoint list \<Rightarrow> string \<Rightarrow> bool" where
  "amendment_match_at wc prev s k \<longleftrightarrow>
     word_boundary wc prev (first_char s)
     \<and> length k \<le> length s \<and> ignorecase_word k (take (length k) s)
     \<and> word_boundary wc (Some (last (take (length k) s))) (first_char (drop (length k) s))"

fun AMENDMENT_RE_search ::
  "(codepoint \<Rightarrow> bool) \<Rightarrow> codepoint option \<Rightarrow> codepoint list \<Rightarrow> codepoint list option" where
  "AMENDMENT_RE_search wc prev [] = None"
| "AMENDMENT_RE_search wc prev (c # cs) =
     (case find (amendment_match_at wc prev (c # cs)) AMENDMENT_WORDS of
        Some k \<Rightarrow> Some (take (length k) (c # cs))
      | None \<Rightarrow> AMENDMENT_RE_search wc (Some c) cs)"

definition scan_for_amendment_indicators ::
  "(codepoint \<Rightarrow> bool) \<Rightarrow> int \<Rightarrow> codepoint list \<Rightarrow> codepoint list \<Rightarrow> error + unit" where
  "scan_for_amendment_indicators wc page header_text footer_text =
     (let combined = header_text @ codes '' '' @ footer_text in
      case AMENDMENT_RE_search wc None combined of
        Some m \<Rightarrow> Inl (Err AMENDMENT_SCAN (Some page))
      | None \<Rightarrow> Inr ())"

text \<open>
  The specification's reading of the scan: some occurrence of a keyword, compared without
  regard to case, that has no word character next to it on either side. Case and word
  characters are Python's, as above.
\<close>

definition whole_word_keyword_match :: "(codepoint \<Rightarrow> bool) \<Rightarrow> codepoint list \<Rightarrow> bool" where
  "whole_word_keyword_match wc t \<longleftrightarrow>
     (\<exists>pre w suf. t = pre @ w @ suf \<and> (\<exists>k\<in>set AMENDMENT_WORDS. ignorecase_word k w) \<and>
        (pre = [] \<or> \<not> wc (last pre)) \<and>
        (suf = [] \<or> \<not> wc (hd suf)))"

text \<open>
  What the proof needs of the class \<^verbatim>\<open>\w\<close>: every code point that a keyword letter matches is
  a word character. In the Unicode database they are all letters.
\<close>

definition keyword_letters_are_word :: "(codepoint \<Rightarrow> bool) \<Rightarrow> bool" where
  "keyword_letters_are_word wc \<longleftrightarrow>
     (\<forall>k\<in>set AMENDMENT_WORDS. \<forall>l\<in>set k. \<forall>c. ignorecase_literal l c \<longrightarrow> wc c)"

text \<open>
  The class \<^verbatim>\<open>\w\<close> of Python restricted to the code points below U+0180 (Basic Latin,
  Latin-1 Supplement, Latin Extended-A).
\<close>

definition latin_word_class :: "codepoint \<Rightarrow> bool" where
  "latin_word_class c \<longleftrightarrow>
     (48 \<le> c \<and> c \<le> 57) \<or> (65 \<le> c \<and> c \<le> 90) \<or> c = 95 \<or> (97 \<le> c \<and> c \<le> 122)
     \<or> c \<in> set [170, 178, 179, 181, 185, 186, 188, 189, 190]
     \<or> (192 \<le> c \<and> c \<le> 214) \<or> (216 \<le> c \<and> c \<le> 246) \<or> (248 \<le> c \<and> c \<le> 0x17F)"

definition prev_nonword :: "(codepoint \<Rightarrow> bool) \<Rightarrow> codepoint option \<Rightarrow> bool" where
  "prev_nonword wc p \<longleftrightarrow> (case p of None \<Rightarrow> True | Some c \<Rightarrow> \<not> wc c)"

definition keyword_occurs :: "(codepoint \<Rightarrow> bool) \<Rightarrow> codepoint option \<Rightarrow> codepoint list \<Rightarrow> bool" where
  "keyword_occurs wc prev s \<longleftrightarrow>
     (\<exists>pre w suf. s = pre @ w @ suf \<and> (\<exists>k\<in>set AMENDMENT_WORDS. ignorecase_word k w) \<and>
        (if pre = [] then prev_nonword wc prev else \<not> wc (last pre)) \<and>
        (suf = [] \<or> \<not> wc (hd suf)))"

subsection \<open>Section recognizer and stack\<close>

text \<open>
  The identifier core shared by the heading expressions,
  \<^verbatim>\<open>[A-Z]{1,3}\d{3,4}(?:\.\d+){0,n}\b\<close> (case-insensitive). The run of letters and the run of
  digits must have exactly the permitted lengths, since the next item cannot start with a
  letter or digit. The dotted groups are taken greedily (\<open>dot_groups\<close>); when the word
  boundary then fails, because a letter or underscore follows the last digit, the engine
  gives the last group back and the boundary holds before its dot.
  \<open>section_id_prefix n s\<close> returns the identifier and the text after it.
\<close>

definition next_is_word :: "string \<Rightarrow> bool" where
  "next_is_word s \<longleftrightarrow> (case s of [] \<Rightarrow> False | c # _ \<Rightarrow> is_word_char c)"

fun dot_groups :: "nat \<Rightarrow> string \<Rightarrow> string list \<times> string" where
  "dot_groups 0 s = ([], s)"
| "dot_groups (Suc n) [] = ([], [])"
| "dot_groups (Suc n) (c # cs) =
     (if c = CHR ''.'' \<and> takeWhile is_digit cs \<noteq> []
      then (case dot_groups n (dropWhile is_digit cs) of
              (gs, r) \<Rightarrow> ((c # takeWhile is_digit cs) # gs, r))
      else ([], c # cs))"

definition section_id_prefix :: "nat \<Rightarrow> string \<Rightarrow> (string \<times> string) option" where
  "section_id_prefix n s =
     (let ls = takeWhile is_alpha s; r1 = dropWhile is_alpha s;
          ds = takeWhile is_digit r1; r2 = dropWhile is_digit r1
      in if length ls < 1 \<or> 3 < length ls \<or> length ds < 3 \<or> 4 < length ds then None
         else (case dot_groups n r2 of
                 (gs, r3) \<Rightarrow>
                   if \<not> next_is_word r3 then Some (ls @ ds @ concat gs, r3)
                   else if gs = [] then None
                   else Some (ls @ ds @ concat (butlast gs), last gs @ r3)))"

text \<open>
  \<^verbatim>\<open>(.*)$\<close>: the dot excludes the newline and \<^verbatim>\<open>$\<close> also matches before a final newline.
\<close>

definition dot_all_to_end :: "string \<Rightarrow> string option" where
  "dot_all_to_end t =
     (if CHR 0x0A \<notin> set t then Some t
      else if t \<noteq> [] \<and> last t = CHR 0x0A \<and> CHR 0x0A \<notin> set (butlast t) then Some (butlast t)
      else None)"

text \<open>
  \<^verbatim>\<open>parse_true_section_heading\<close>: \<^verbatim>\<open>^\s*(ID{0,6})\b(.*)$\<close>, then the three rejections of the
  source: an opening parenthesis right after the identifier, an empty remainder, a
  remainder that does not start with an uppercase letter.
\<close>

definition parse_true_section_heading :: "string \<Rightarrow> string option" where
  "parse_true_section_heading line_text =
     (case section_id_prefix 6 (dropWhile is_space line_text) of
        None \<Rightarrow> None
      | Some (group1, after) \<Rightarrow>
          (case dot_all_to_end after of
             None \<Rightarrow> None
           | Some group2 \<Rightarrow>
               if after \<noteq> [] \<and> hd after = CHR ''(''  then None
               else let rest = lstrip group2
                    in if rest = [] then None
                       else if \<not> is_upper (hd rest) then None
                       else Some group1))"

definition parse_section_marker_line :: "string \<Rightarrow> string option" where
  "parse_section_marker_line line_text =
     (let s = dropWhile is_space line_text
      in if \<not> literal_ci_prefix ''SECTION'' s then None
         else let t = drop 7 s
              in if takeWhile is_space t = [] then None
                 else map_option fst (section_id_prefix 6 (dropWhile is_space t)))"

text \<open>\<^verbatim>\<open>section_id_depth\<close> counts the matches of \<^verbatim>\<open>\d+\<close>, the maximal runs of digits.\<close>

fun digit_runs :: "bool \<Rightarrow> string \<Rightarrow> nat" where
  "digit_runs in_run [] = 0"
| "digit_runs in_run (c # cs) =
     (if is_digit c then (if in_run then 0 else 1) + digit_runs True cs
      else digit_runs False cs)"

definition section_id_depth :: "string \<Rightarrow> int" where
  "section_id_depth section_id = int (digit_runs False section_id)"


text \<open>
  Rulings, words and lines are the dictionaries of the source with the keys it reads: a
  ruling is a box, a word of the PDF extractor is a box with text, font size and font
  name, and a line is a box with text extended by the fields that \<^verbatim>\<open>words_to_lines\<close> and the
  column classifier add. The keys \<^verbatim>\<open>text\<close>, \<^verbatim>\<open>top\<close>, \<^verbatim>\<open>size\<close> and \<^verbatim>\<open>chapter\<close> carry a prime.
\<close>

record box =
  x0 :: real
  x1 :: real
  top' :: real
  bottom :: real

record word = box +
  text' :: string

record pdf_word = word +
  size' :: "real option"
  fontname :: "string option"

datatype column = Left | Right | Spanning | Center_structural | Single

datatype role = Spanning_header | Spanning_reference | Center_structural_role

record line = word +
  size_median :: "real option"
  bold :: bool
  column :: "column option"
  role :: "role option"

record column_bounds =
  left_x0 :: real
  right_x0_p5 :: real
  right_x0_min :: real
  page_median_char_width :: real

definition COLUMN_MARGIN_TOLERANCE :: real where "COLUMN_MARGIN_TOLERANCE = 3"
definition HEADER_SIZE_DELTA :: real where "HEADER_SIZE_DELTA = 1"
definition LINE_Y_TOLERANCE :: real where "LINE_Y_TOLERANCE = 3"

definition header_position_tolerance :: "column_bounds \<Rightarrow> real" where
  "header_position_tolerance cb = max COLUMN_MARGIN_TOLERANCE (page_median_char_width cb * 3)"

definition is_header_position_any :: "line \<Rightarrow> column_bounds \<Rightarrow> bool" where
  "is_header_position_any l cb =
     (let tolerance = header_position_tolerance cb
      in if column l = Some Right
         then (let right_x0 = (if right_x0_p5 cb \<noteq> 0 then right_x0_p5 cb else right_x0_min cb)
               in \<bar>x0 l - right_x0\<bar> \<le> tolerance)
         else \<bar>x0 l - left_x0 cb\<bar> \<le> tolerance)"

definition is_header_style :: "line \<Rightarrow> real \<Rightarrow> bool" where
  "is_header_style l body_median_size =
     (case size_median l of
        None \<Rightarrow> False
      | Some line_size \<Rightarrow> bold l \<or> line_size \<ge> body_median_size + HEADER_SIZE_DELTA)"

definition passes_header_position_style :: "line \<Rightarrow> column_bounds \<Rightarrow> real \<Rightarrow> bool" where
  "passes_header_position_style l cb body_median_size \<longleftrightarrow>
     is_header_position_any l cb \<and> is_header_style l body_median_size"

text \<open>
  The document-level state of the section traversal in \<^verbatim>\<open>main\<close>. The stack is the Python
  list: its last element is the top. \<open>written_sections\<close> records the calls of
  \<^verbatim>\<open>write_section\<close> in order; the call fails when the page list is empty.
\<close>

record section_entry =
  sid :: string
  depth :: int
  lines :: "string list"
  start_page :: int
  end_page :: int
  chapter' :: string

record section_state =
  section_stack :: "section_entry list"
  section_occurrences :: "string \<rightharpoonup> int"
  written_sections :: "section_entry list"
  sections_extracted :: int

definition initial_section_state :: section_state where
  "initial_section_state =
     \<lparr>section_stack = [], section_occurrences = Map.empty, written_sections = [],
      sections_extracted = 0\<rparr>"

definition write_section :: "section_entry \<Rightarrow> section_state \<Rightarrow> error + section_state" where
  "write_section entry st =
     (if end_page entry < start_page entry then Inl (Err PDF_PAGE_RANGE None)
      else Inr (st\<lparr>written_sections := written_sections st @ [entry]\<rparr>))"

definition pop_and_write :: "section_state \<Rightarrow> error + section_state" where
  "pop_and_write st =
     (let entry = last (section_stack st);
          st1 = st\<lparr>section_stack := butlast (section_stack st)\<rparr>
      in case write_section entry st1 of
           Inl e \<Rightarrow> Inl e
         | Inr st2 \<Rightarrow> Inr (st2\<lparr>sections_extracted := sections_extracted st2 + 1\<rparr>))"

text \<open>
  The \<^verbatim>\<open>while\<close> loop run on accepting an identifier: pop and write while the top entry is
  at least as deep and has a different identifier.
\<close>

function flush_not_shallower :: "int \<Rightarrow> string \<Rightarrow> section_state \<Rightarrow> error + section_state" where
  "flush_not_shallower new_depth candidate_id st =
     (if section_stack st \<noteq> [] \<and> new_depth \<le> depth (last (section_stack st))
         \<and> candidate_id \<noteq> sid (last (section_stack st))
      then (case pop_and_write st of
              Inl e \<Rightarrow> Inl e
            | Inr st' \<Rightarrow> flush_not_shallower new_depth candidate_id st')
      else Inr st)"
  by pat_completeness auto
termination
  by (relation "measure (\<lambda>(d, c, st). length (section_stack st))")
     (auto simp: pop_and_write_def write_section_def Let_def split: if_splits)

record page_context =
  page_num :: int
  is_toc_page :: bool
  table_label_entries :: "(real \<times> string) list"
  table_footnote_tops :: "real list"
  current_chapter :: string

definition is_label_line :: "page_context \<Rightarrow> line \<Rightarrow> bool" where
  "is_label_line ctx l \<longleftrightarrow>
     (\<exists>(label_top, label_text) \<in> set (table_label_entries ctx).
        \<bar>top' l - label_top\<bar> \<le> LINE_Y_TOLERANCE \<and> text' l = label_text)"

text \<open>One iteration of the loop over \<^verbatim>\<open>ordered_lines\<close> that builds the section text.\<close>

definition section_line_step :: "page_context \<Rightarrow> line \<Rightarrow> section_state \<Rightarrow> error + section_state" where
  "section_line_step ctx l st =
     (if is_toc_page ctx then Inr st
      else
        let candidate_id = parse_true_section_heading (text' l);
            marker_id = parse_section_marker_line (text' l)
        in if marker_id \<noteq> None
           then (if section_stack st \<noteq> [] then pop_and_write st else Inr st)
           else
             (case candidate_id of
                Some cid \<Rightarrow>
                  if role l = Some Spanning_reference \<or> is_label_line ctx l
                     \<or> top' l \<in> set (table_footnote_tops ctx)
                  then Inl (Err SECTION_HEADER_SKIPPED (Some (page_num ctx)))
                  else if section_stack st \<noteq> [] \<and> cid = sid (last (section_stack st))
                  then Inl (Err SECTION_APPEND_VIOLATION (Some (page_num ctx)))
                  else
                    (let new_depth = section_id_depth cid
                     in case flush_not_shallower new_depth cid st of
                          Inl e \<Rightarrow> Inl e
                        | Inr st1 \<Rightarrow>
                            if cid \<in> dom (section_occurrences st1)
                            then Inl (Err SECTION_DUPLICATE (Some (page_num ctx)))
                            else Inr (st1\<lparr>
                              section_occurrences :=
                                (section_occurrences st1)(cid \<mapsto> page_num ctx),
                              section_stack := section_stack st1 @
                                [\<lparr>sid = cid, depth = new_depth, lines = [text' l],
                                  start_page = page_num ctx, end_page = page_num ctx,
                                  chapter' = current_chapter ctx\<rparr>]\<rparr>))
              | None \<Rightarrow>
                  if role l = Some Spanning_reference then Inr st
                  else if is_label_line ctx l \<or> top' l \<in> set (table_footnote_tops ctx)
                  then Inr st
                  else if section_stack st \<noteq> []
                  then (let e = last (section_stack st)
                        in Inr (st\<lparr>section_stack := butlast (section_stack st) @
                              [e\<lparr>lines := lines e @ [text' l], end_page := page_num ctx\<rparr>]\<rparr>))
                  else Inr st))"

fun section_lines :: "(page_context \<times> line) list \<Rightarrow> section_state \<Rightarrow> error + section_state" where
  "section_lines [] st = Inr st"
| "section_lines ((ctx, l) # rest) st =
     (case section_line_step ctx l st of
        Inl e \<Rightarrow> Inl e
      | Inr st' \<Rightarrow> section_lines rest st')"

text \<open>The flush of the stack after the last page.\<close>

function flush_all :: "section_state \<Rightarrow> error + section_state" where
  "flush_all st =
     (if section_stack st \<noteq> []
      then (case pop_and_write st of Inl e \<Rightarrow> Inl e | Inr st' \<Rightarrow> flush_all st')
      else Inr st)"
  by pat_completeness auto
termination
  by (relation "measure (\<lambda>st. length (section_stack st))")
     (auto simp: pop_and_write_def write_section_def Let_def split: if_splits)

text \<open>
  The states the traversal passes through: the initial state, the state after each line,
  and the state after each single pop (by a section marker, inside the loop that flushes
  deeper entries, or in the final flush).
\<close>

inductive traversal_state :: "section_state \<Rightarrow> bool" where
  initial: "traversal_state initial_section_state"
| after_line: "traversal_state st \<Longrightarrow> section_line_step ctx l st = Inr st' \<Longrightarrow> traversal_state st'"
| after_pop: "traversal_state st \<Longrightarrow> section_stack st \<noteq> [] \<Longrightarrow> pop_and_write st = Inr st'
     \<Longrightarrow> traversal_state st'"

definition plain_line :: "string \<Rightarrow> real \<Rightarrow> line" where
  "plain_line t x = \<lparr>x0 = x, x1 = x + 100, top' = 400, bottom = 410, text' = t,
     size_median = Some 10, bold = False, column = Some Left, role = None\<rparr>"

definition plain_page :: "int \<Rightarrow> page_context" where
  "plain_page n = \<lparr>page_num = n, is_toc_page = False, table_label_entries = [],
     table_footnote_tops = [], current_chapter = ''Chapter 3''\<rparr>"

definition depths_increasing :: "section_entry list \<Rightarrow> bool" where
  "depths_increasing stack \<longleftrightarrow>
     (\<forall>i j. i < j \<and> j < length stack \<longrightarrow> depth (stack ! i) < depth (stack ! j))"

definition stack_inv :: "section_state \<Rightarrow> bool" where
  "stack_inv st \<longleftrightarrow>
     sorted_wrt (<) (map depth (section_stack st)) \<and>
     sid ` set (section_stack st) \<subseteq> dom (section_occurrences st)"


subsection \<open>Table detector: choice of the page rotation\<close>

text \<open>
  \<^verbatim>\<open>extract_tables_with_rotation\<close> computes, for each rotation of \<^verbatim>\<open>[0, 90, 270]\<close>, the total
  intersection count and total area of the ruled-table candidates and the orientation
  score. \<open>measure_of r\<close> stands for these three numbers as computed from the page for
  rotation \<open>r\<close>; the model is the selection that follows: the sort by the ranking key,
  the tie test on the top two results and the early return when the best result has no
  intersections. A \<open>chosen\<close> of \<open>None\<close> is the return of an empty candidate list with
  \<^verbatim>\<open>chosen_rotation = None\<close>; \<open>tie\<close> is the \<^verbatim>\<open>tie_breaker\<close> that makes \<^verbatim>\<open>main\<close> record the
  warning \<^verbatim>\<open>TABLE_ROTATION_TIE_DEFAULT\<close>.
\<close>

record rotation_result =
  rotation :: int
  total_intersections :: int
  total_area :: real
  orientation_score :: int

record rotation_metrics =
  m_intersections :: int
  m_area :: real
  m_score :: int

definition rotation_results :: "(int \<Rightarrow> rotation_metrics) \<Rightarrow> rotation_result list" where
  "rotation_results measure_of =
     map (\<lambda>r. \<lparr>rotation = r, total_intersections = m_intersections (measure_of r),
                 total_area = m_area (measure_of r),
                 orientation_score = m_score (measure_of r)\<rparr>) [0, 90, 270]"

definition rank_key :: "rotation_result \<Rightarrow> int \<times> int \<times> real \<times> int" where
  "rank_key r = (orientation_score r, total_intersections r, total_area r, - rotation r)"

definition ranked :: "rotation_result list \<Rightarrow> rotation_result list" where
  "ranked rs = sort_key rank_key rs"

definition second_of :: "rotation_result list \<Rightarrow> rotation_result option" where
  "second_of rs = (if length rs > 1 then Some (rs ! (length rs - 2)) else None)"

definition equal_evidence :: "rotation_result \<Rightarrow> rotation_result \<Rightarrow> bool" where
  "equal_evidence b s \<longleftrightarrow>
     orientation_score b = orientation_score s \<and>
     total_intersections b = total_intersections s \<and>
     total_area b = total_area s"

datatype tie_breaker = Default_rotation_0

record rotation_choice =
  chosen :: "rotation_result option"
  tie :: "tie_breaker option"

definition choose_rotation :: "int \<Rightarrow> rotation_result list \<Rightarrow> error + rotation_choice" where
  "choose_rotation page rs =
     (let ordered = ranked rs;
          best = last ordered;
          second = second_of ordered;
          finish = (\<lambda>b t. if total_intersections b \<le> 0
                           then Inr \<lparr>chosen = None, tie = t\<rparr>
                           else Inr \<lparr>chosen = Some b, tie = t\<rparr>)
      in case second of
           Some s \<Rightarrow>
             if total_intersections best > 0 \<and> equal_evidence best s
             then (if orientation_score best = 0 \<and> orientation_score s = 0
                   then finish (case find (\<lambda>c. rotation c = 0) ordered of
                                  Some c \<Rightarrow> c | None \<Rightarrow> best)
                               (Some Default_rotation_0)
                   else Inl (Err TABLE_ROTATION_AMBIGUOUS (Some page)))
             else finish best None
         | None \<Rightarrow> finish best None)"

definition extract_tables_with_rotation :: "int \<Rightarrow> (int \<Rightarrow> rotation_metrics) \<Rightarrow> error + rotation_choice" where
  "extract_tables_with_rotation page measure_of = choose_rotation page (rotation_results measure_of)"

text \<open>The lexicographic order of the ranking key, written out.\<close>

definition rank_le :: "rotation_result \<Rightarrow> rotation_result \<Rightarrow> bool" where
  "rank_le a b \<longleftrightarrow>
     orientation_score a < orientation_score b \<or>
     orientation_score a = orientation_score b \<and>
       (total_intersections a < total_intersections b \<or>
        total_intersections a = total_intersections b \<and>
          (total_area a < total_area b \<or>
           total_area a = total_area b \<and> - rotation a \<le> - rotation b))"

text \<open>
  Three pages: one without rulings; one whose grid is found equally at 0 and 90 degrees
  with no oriented characters; one found equally at 90 and 270 degrees with five
  oriented characters each.
\<close>

definition blank_page :: "int \<Rightarrow> rotation_metrics" where
  "blank_page r = \<lparr>m_intersections = 0, m_area = 0, m_score = 0\<rparr>"

definition unoriented_grid :: "int \<Rightarrow> rotation_metrics" where
  "unoriented_grid r =
     (if r = 270 then \<lparr>m_intersections = 4, m_area = 100, m_score = 0\<rparr>
      else \<lparr>m_intersections = 8, m_area = 400, m_score = 0\<rparr>)"

definition symmetric_grid :: "int \<Rightarrow> rotation_metrics" where
  "symmetric_grid r =
     (if r = 0 then \<lparr>m_intersections = 4, m_area = 100, m_score = 0\<rparr>
      else \<lparr>m_intersections = 8, m_area = 400, m_score = 5\<rparr>)"

subsection \<open>Label binder: \<^verbatim>\<open>TABLE_LABEL_RE\<close> and \<^verbatim>\<open>find_table_label_for_bbox\<close>\<close>

text \<open>
  \<^verbatim>\<open>TABLE_LABEL_RE = ^TABLE\s+(ID(?:\.\d+)*(?:\([0-9A-Z]+\))?)\b\.?\s*(.*)?$\<close>, case-insensitive.
  The engine first tries the identifier with its parenthesised variant; the word boundary
  after the closing parenthesis holds only when a word character follows, so for a caption
  such as \<^verbatim>\<open>TABLE R302.1(1) TITLE\<close> it falls back to the identifier without the variant.
  \<open>TABLE_LABEL_RE_match\<close> returns the two groups of the match.
\<close>

definition is_alnum :: "char \<Rightarrow> bool" where
  "is_alnum c \<longleftrightarrow> is_alpha c \<or> is_digit c"

text \<open>\<open>contains needle s\<close> is the Python test \<^verbatim>\<open>needle in s\<close>.\<close>

fun contains :: "string \<Rightarrow> string \<Rightarrow> bool" where
  "contains needle [] = (needle = [])"
| "contains needle (c # cs) = (take (length needle) (c # cs) = needle \<or> contains needle cs)"

definition paren_group :: "string \<Rightarrow> (string \<times> string) option" where
  "paren_group s =
     (case s of
        [] \<Rightarrow> None
      | c # cs \<Rightarrow>
          let body = takeWhile is_alnum cs; r = dropWhile is_alnum cs
          in if c = CHR ''('' \<and> body \<noteq> [] \<and> r \<noteq> [] \<and> hd r = CHR '')''
             then Some (c # body @ '')'', tl r)
             else None)"

definition table_id_prefix :: "string \<Rightarrow> (string \<times> string) option" where
  "table_id_prefix s =
     (let ls = takeWhile is_alpha s; r1 = dropWhile is_alpha s;
          ds = takeWhile is_digit r1; r2 = dropWhile is_digit r1
      in if length ls < 1 \<or> 3 < length ls \<or> length ds < 3 \<or> 4 < length ds then None
         else (case dot_groups (length s) r2 of
                 (gs, r3) \<Rightarrow>
                   (case paren_group r3 of
                      Some (pg, r4) \<Rightarrow>
                        if next_is_word r4 then Some (ls @ ds @ concat gs @ pg, r4)
                        else Some (ls @ ds @ concat gs, r3)
                    | None \<Rightarrow>
                        if \<not> next_is_word r3 then Some (ls @ ds @ concat gs, r3)
                        else if gs = [] then None
                        else Some (ls @ ds @ concat (butlast gs), last gs @ r3))))"

definition TABLE_LABEL_RE_match :: "string \<Rightarrow> (string \<times> string) option" where
  "TABLE_LABEL_RE_match s =
     (if \<not> literal_ci_prefix ''TABLE'' s then None
      else let t = drop 5 s
           in if takeWhile is_space t = [] then None
              else (case table_id_prefix (dropWhile is_space t) of
                      None \<Rightarrow> None
                    | Some (group1, after) \<Rightarrow>
                        let a1 = (if after \<noteq> [] \<and> hd after = CHR ''.'' then tl after else after);
                            a2 = dropWhile is_space a1
                        in map_option (\<lambda>group2. (group1, group2)) (dot_all_to_end a2)))"


type_synonym bbox = "real \<times> real \<times> real \<times> real"

definition TABLE_LABEL_SEARCH_WINDOW :: real where "TABLE_LABEL_SEARCH_WINDOW = 60"
definition TABLE_LABEL_TOP_BAND_RATIO :: real where "TABLE_LABEL_TOP_BAND_RATIO = 0.15"

text \<open>
  \<^verbatim>\<open>find_table_label_for_bbox\<close>. The Python sorts are stable, as \<open>sort_key\<close> is; the debug
  records are left out.
\<close>

definition overlaps :: "bbox \<Rightarrow> line \<Rightarrow> bool" where
  "overlaps bb l = (case bb of (bx0, by0, bx1, by1) \<Rightarrow> \<not> (x1 l < bx0 \<or> x0 l > bx1))"

definition is_table_label :: "bbox \<Rightarrow> line \<Rightarrow> bool" where
  "is_table_label bb l \<longleftrightarrow> TABLE_LABEL_RE_match (strip (text' l)) \<noteq> None \<and> overlaps bb l"

definition is_above :: "bbox \<Rightarrow> line \<Rightarrow> bool" where
  "is_above bb l =
     (case bb of (bx0, by0, bx1, by1) \<Rightarrow>
        bottom l \<le> by0 \<and> by0 - bottom l \<le> TABLE_LABEL_SEARCH_WINDOW)"

definition is_inside_band :: "bbox \<Rightarrow> line \<Rightarrow> bool" where
  "is_inside_band bb l =
     (case bb of (bx0, by0, bx1, by1) \<Rightarrow>
        (let band_height = (by1 - by0) * TABLE_LABEL_TOP_BAND_RATIO
         in by0 \<le> top' l \<and> top' l \<le> by0 + band_height))"

record label_binding =
  bound_id :: string
  bound_title :: string
  bound_line :: line
  bound_continued :: bool

definition binding_of :: "line \<Rightarrow> label_binding option" where
  "binding_of l =
     (case TABLE_LABEL_RE_match (strip (text' l)) of
        None \<Rightarrow> None
      | Some (group1, group2) \<Rightarrow>
          Some \<lparr>bound_id = strip group1, bound_title = strip group2, bound_line = l,
                bound_continued = contains ''CONTINUED'' (upper (text' l))\<rparr>)"

definition find_table_label_for_bbox :: "line list \<Rightarrow> bbox \<Rightarrow> label_binding option" where
  "find_table_label_for_bbox label_lines bb =
     (let labels = filter (is_table_label bb) label_lines;
          above = filter (is_above bb) labels
      in if above \<noteq> [] then binding_of (last (sort_key bottom above))
         else (let inside_band = filter (is_inside_band bb) labels
               in if inside_band \<noteq> [] then binding_of (hd (sort_key top' inside_band))
                  else None))"

text \<open>
  The part of \<^verbatim>\<open>main\<close> that names a table: the bound label, or the identifier
  \<^verbatim>\<open>UNLABELED_P<page>_T<idx>\<close> with the warning \<^verbatim>\<open>TABLE_LABEL_MISSING\<close>. \<open>show_int\<close> is the
  decimal rendering of an integer in an f-string.
\<close>

function show_nat :: "nat \<Rightarrow> string" where
  "show_nat n =
     (if n < 10 then [char_of (48 + n)] else show_nat (n div 10) @ [char_of (48 + n mod 10)])"
  by pat_completeness auto
termination
  by (relation "measure id") auto

definition show_int :: "int \<Rightarrow> string" where
  "show_int i = (if i < 0 then CHR ''-'' # show_nat (nat (- i)) else show_nat (nat i))"

datatype warning =
    TABLE_LABEL_MISSING int
  | TABLE_CONTINUED_WITHOUT_PRIOR int string
  | TABLE_TITLE_MISSING int string

definition unlabeled_id :: "int \<Rightarrow> int \<Rightarrow> string" where
  "unlabeled_id page table_idx = ''UNLABELED_P'' @ show_int page @ ''_T'' @ show_int table_idx"

record labelled =
  lab_id :: string
  lab_title :: string
  lab_line :: "line option"
  lab_continued :: bool
  lab_unlabeled :: bool

definition label_table :: "int \<Rightarrow> int \<Rightarrow> line list \<Rightarrow> bbox \<Rightarrow> labelled \<times> warning list" where
  "label_table page table_idx label_lines bb =
     (case find_table_label_for_bbox label_lines bb of
        None \<Rightarrow>
          (\<lparr>lab_id = unlabeled_id page table_idx, lab_title = [], lab_line = None,
            lab_continued = False, lab_unlabeled = True\<rparr>,
           [TABLE_LABEL_MISSING page])
      | Some b \<Rightarrow>
          (\<lparr>lab_id = bound_id b, lab_title = bound_title b, lab_line = Some (bound_line b),
            lab_continued = bound_continued b, lab_unlabeled = False\<rparr>, []))"

text \<open>A caption line spanning x from 100 to 300.\<close>

definition caption :: "string \<Rightarrow> real \<Rightarrow> real \<Rightarrow> line" where
  "caption t y0 y1 = \<lparr>x0 = 100, x1 = 300, top' = y0, bottom = y1, text' = t,
     size_median = Some 9, bold = True, column = Some Single, role = None\<rparr>"

subsection \<open>Table detector: cell extraction from a ruled grid\<close>

text \<open>
  \<^verbatim>\<open>median\<close>, \<^verbatim>\<open>join_words_with_spacing\<close>, \<^verbatim>\<open>words_to_lines\<close> and \<^verbatim>\<open>median_char_width_for_words\<close>,
  which produce the text of a cell. \<open>py_round\<close> is Python's \<^verbatim>\<open>round\<close> to an integer (ties
  to even). In \<^verbatim>\<open>words_to_lines\<close> the group under construction is the last of the list.
\<close>

definition RULING_EPS :: real where "RULING_EPS = 1"
definition TABLE_EMPTY_CELL_RATIO_MAX :: real where "TABLE_EMPTY_CELL_RATIO_MAX = 0.8"
definition WORD_GAP_MULTIPLIER :: real where "WORD_GAP_MULTIPLIER = 0.5"

definition median :: "real list \<Rightarrow> error + real" where
  "median values =
     (if values = [] then Inl (Err MEDIAN_EMPTY None)
      else let values_sorted = sort values; mid = length values_sorted div 2
           in if length values_sorted mod 2 = 1 then Inr (values_sorted ! mid)
              else Inr ((values_sorted ! (mid - 1) + values_sorted ! mid) / 2))"

definition py_round :: "real \<Rightarrow> int" where
  "py_round x =
     (let f = \<lfloor>x\<rfloor>; d = x - of_int f
      in if d < 1 / 2 then f else if 1 / 2 < d then f + 1 else if even f then f else f + 1)"

fun join_words_from :: "real option \<Rightarrow> ('a word_scheme) list \<Rightarrow> real \<Rightarrow> real \<Rightarrow> string" where
  "join_words_from prev_x1 [] gap_threshold median_char_width = []"
| "join_words_from prev_x1 (w # ws) gap_threshold median_char_width =
     (case prev_x1 of
        None \<Rightarrow> []
      | Some p \<Rightarrow>
          (let gap = x0 w - p
           in if gap > gap_threshold
              then replicate (nat (max 1 (py_round (gap / median_char_width)))) CHR '' ''
              else []))
     @ text' w @ join_words_from (Some (x1 w)) ws gap_threshold median_char_width"

definition join_words_with_spacing :: "('a word_scheme) list \<Rightarrow> real \<Rightarrow> real \<Rightarrow> string" where
  "join_words_with_spacing ws gap_threshold median_char_width =
     join_words_from None ws gap_threshold median_char_width"

record line_group = box +
  words :: "pdf_word list"

fun group_words :: "real \<Rightarrow> line_group list \<Rightarrow> pdf_word list \<Rightarrow> line_group list" where
  "group_words y_tolerance ls [] = ls"
| "group_words y_tolerance ls (w # ws) =
     group_words y_tolerance
       (if ls = [] \<or> \<bar>top' w - top' (last ls)\<bar> > y_tolerance
        then ls @ [\<lparr>x0 = x0 w, x1 = x1 w, top' = top' w, bottom = bottom w, words = [w]\<rparr>]
        else butlast ls @
             [(last ls)\<lparr>words := words (last ls) @ [w],
                        x0 := min (x0 (last ls)) (x0 w),
                        x1 := max (x1 (last ls)) (x1 w),
                        bottom := max (bottom (last ls)) (bottom w)\<rparr>])
       ws"

definition lower_char :: "char \<Rightarrow> char" where
  "lower_char c =
     (case map_of (zip ''ABCDEFGHIJKLMNOPQRSTUVWXYZ'' ''abcdefghijklmnopqrstuvwxyz'') c of
        Some u \<Rightarrow> u
      | None \<Rightarrow> c)"

definition lower :: "string \<Rightarrow> string" where
  "lower s = map lower_char s"

definition finish_line :: "real \<Rightarrow> real \<Rightarrow> line_group \<Rightarrow> line" where
  "finish_line gap_threshold median_char_width g =
     (let ws = sort_key x0 (words g);
          sizes = List.map_filter size' ws
      in \<lparr>x0 = x0 g, x1 = x1 g, top' = top' g, bottom = bottom g,
          text' = join_words_with_spacing ws gap_threshold median_char_width,
          size_median = (if sizes = [] then None
                         else (case median sizes of Inr m \<Rightarrow> Some m | Inl e \<Rightarrow> None)),
          bold = (\<exists>w\<in>set ws. contains ''bold''
                    (lower (case fontname w of None \<Rightarrow> [] | Some n \<Rightarrow> n))),
          column = None, role = None\<rparr>)"

definition words_to_lines :: "pdf_word list \<Rightarrow> real \<Rightarrow> real \<Rightarrow> real \<Rightarrow> line list" where
  "words_to_lines ws y_tolerance gap_threshold median_char_width =
     (let words_sorted = sort_key (\<lambda>w. (top' w, x0 w)) ws;
          groups = group_words y_tolerance [] words_sorted
      in filter (\<lambda>l. text' l \<noteq> [])
           (map (finish_line gap_threshold median_char_width) groups))"

definition median_char_width_for_words :: "pdf_word list \<Rightarrow> real" where
  "median_char_width_for_words ws =
     (let widths = filter (\<lambda>width. width > 0)
                     (map (\<lambda>w. (x1 w - x0 w) / real (max (length (text' w)) 1))
                        (filter (\<lambda>w. text' w \<noteq> []) ws))
      in if widths = [] then 1
         else (case median widths of Inr m \<Rightarrow> m | Inl e \<Rightarrow> 1))"

text \<open>
  \<^verbatim>\<open>unique_sorted_positions\<close>: the loop keeps a value when it is more than the tolerance
  away from the last value kept.
\<close>

fun merge_positions :: "real \<Rightarrow> real \<Rightarrow> real list \<Rightarrow> real list" where
  "merge_positions tolerance kept [] = []"
| "merge_positions tolerance kept (v # vs) =
     (if \<bar>v - kept\<bar> > tolerance then v # merge_positions tolerance v vs
      else merge_positions tolerance kept vs)"

definition unique_sorted_positions :: "real list \<Rightarrow> real \<Rightarrow> real list" where
  "unique_sorted_positions values tolerance =
     (case sort values of
        [] \<Rightarrow> []
      | v # vs \<Rightarrow> v # merge_positions tolerance v vs)"

text \<open>
  \<^verbatim>\<open>extract_table_cells_from_grid\<close>. Both calls of \<^verbatim>\<open>unique_sorted_positions\<close> pass
  \<^verbatim>\<open>RULING_EPS\<close>, 1 pt, as the tolerance, and the positions are kept when within \<^verbatim>\<open>RULING_EPS\<close>
  of the bbox.
\<close>

record candidate =
  bbox_rotated :: bbox
  v_lines :: "box list"
  h_lines :: "box list"
  candidate_rotation :: int
  intersection_count :: int
  confidence_reason :: string

record extraction =
  ex_ok :: bool
  ex_rows :: "string list list"
  ex_columns :: "string list"
  ex_empty_ratio :: real
  ex_row_count :: int
  ex_col_count :: int
  ex_reason :: string

definition center_in :: "real \<Rightarrow> real \<Rightarrow> real \<Rightarrow> real \<Rightarrow> 'a box_scheme \<Rightarrow> bool" where
  "center_in cx0 cx1 ctop cbottom w \<longleftrightarrow>
     cx0 \<le> (x0 w + x1 w) / 2 \<and> (x0 w + x1 w) / 2 \<le> cx1 \<and>
     ctop \<le> (top' w + bottom w) / 2 \<and> (top' w + bottom w) / 2 \<le> cbottom"

definition center_strictly_in :: "real \<Rightarrow> real \<Rightarrow> real \<Rightarrow> real \<Rightarrow> 'a box_scheme \<Rightarrow> bool" where
  "center_strictly_in cx0 cx1 ctop cbottom w \<longleftrightarrow>
     cx0 < (x0 w + x1 w) / 2 \<and> (x0 w + x1 w) / 2 < cx1 \<and>
     ctop < (top' w + bottom w) / 2 \<and> (top' w + bottom w) / 2 < cbottom"

fun join_with :: "string \<Rightarrow> string list \<Rightarrow> string" where
  "join_with sep [] = []"
| "join_with sep [s] = s"
| "join_with sep (s # t # ss) = s @ sep @ join_with sep (t # ss)"

definition LINE_FEED :: char where "LINE_FEED = CHR 0x0A"

definition cell_text :: "pdf_word list \<Rightarrow> string" where
  "cell_text cell_words =
     (if cell_words \<noteq> []
      then (let median_width = median_char_width_for_words cell_words;
                gap_threshold = median_width * WORD_GAP_MULTIPLIER;
                ls = words_to_lines cell_words LINE_Y_TOLERANCE gap_threshold median_width
            in join_with [LINE_FEED] (map text' ls))
      else [])"

definition grid_positions :: "real list \<Rightarrow> real \<Rightarrow> real \<Rightarrow> real list" where
  "grid_positions values lo hi =
     sort (filter (\<lambda>p. lo - RULING_EPS \<le> p \<and> p \<le> hi + RULING_EPS)
             (unique_sorted_positions values RULING_EPS))"

definition grid_rows :: "pdf_word list \<Rightarrow> real list \<Rightarrow> real list \<Rightarrow> string list list" where
  "grid_rows words_in_bbox h_positions v_positions =
     map (\<lambda>(cell_top, cell_bottom).
            map (\<lambda>(cell_x0, cell_x1).
                   cell_text (filter (center_in cell_x0 cell_x1 cell_top cell_bottom) words_in_bbox))
              (zip v_positions (tl v_positions)))
       (zip h_positions (tl h_positions))"

definition extract_table_cells_from_grid :: "pdf_word list \<Rightarrow> 'a candidate_scheme \<Rightarrow> extraction" where
  "extract_table_cells_from_grid ws cand =
     (case bbox_rotated cand of (bx0, btop, bx1, bbottom) \<Rightarrow>
        let v_positions = grid_positions (map x0 (v_lines cand)) bx0 bx1;
            h_positions = grid_positions (map top' (h_lines cand)) btop bbottom
        in if length v_positions < 2 \<or> length h_positions < 2
           then \<lparr>ex_ok = False, ex_rows = [], ex_columns = [], ex_empty_ratio = 1,
                  ex_row_count = 0, ex_col_count = 0, ex_reason = ''grid_insufficient''\<rparr>
           else
             let words_in_bbox = filter (center_in bx0 bx1 btop bbottom) ws;
                 rows = grid_rows words_in_bbox h_positions v_positions;
                 total_cells = sum_list (map length rows);
                 empty_cells = length (filter (\<lambda>cell. strip cell = []) (concat rows));
                 empty_ratio = (if total_cells \<noteq> 0 then real empty_cells / real total_cells else 1);
                 col_count = (if rows \<noteq> [] then int (length (hd rows)) else 0);
                 row_count = int (length rows);
                 ok = (row_count \<ge> 2 \<and> col_count \<ge> 2 \<and> empty_ratio \<le> TABLE_EMPTY_CELL_RATIO_MAX)
             in \<lparr>ex_ok = ok,
                 ex_rows = (if length rows > 1 then tl rows else []),
                 ex_columns = (if rows \<noteq> [] then hd rows else []),
                 ex_empty_ratio = empty_ratio, ex_row_count = row_count, ex_col_count = col_count,
                 ex_reason = (if ok then ''ok'' else ''degenerate'')\<rparr>)"

text \<open>
  A grid on the bbox \<open>(0, 0, 100, 40)\<close> with horizontal rulings at 0, 20, 20.5 and 40, vertical
  rulings at the given positions, and five words. The ruling positions are multiples of
  0.5, as \<^verbatim>\<open>get_ruling_lines\<close> snaps them.
\<close>

definition vrule :: "real \<Rightarrow> box" where
  "vrule x = \<lparr>x0 = x, x1 = x, top' = 0, bottom = 40\<rparr>"

definition hrule :: "real \<Rightarrow> box" where
  "hrule y = \<lparr>x0 = 0, x1 = 100, top' = y, bottom = y\<rparr>"

definition cell_word :: "string \<Rightarrow> real \<Rightarrow> real \<Rightarrow> pdf_word" where
  "cell_word t x y = \<lparr>x0 = x, x1 = x + 5 * real (length t), top' = y, bottom = y + 10, text' = t,
     size' = Some 9, fontname = Some ''Arial''\<rparr>"

definition sample_words :: "pdf_word list" where
  "sample_words = [cell_word ''Zone'' 5 5, cell_word ''Speed'' 55 5, cell_word ''mph'' 85 5,
                   cell_word ''A'' 5 25, cell_word ''115'' 55 25]"

definition sample_grid :: "real list \<Rightarrow> candidate" where
  "sample_grid xs = \<lparr>bbox_rotated = (0, 0, 100, 40), v_lines = map vrule xs,
     h_lines = map hrule [0, 20, 40, 20.5], candidate_rotation = 0, intersection_count = 9,
     confidence_reason = ''ruled_grid''\<rparr>"

text \<open>
  The grid positions as the specification words them: merged within 0.5 pt and clipped
  to the bbox.
\<close>

definition spec_grid_positions :: "real list \<Rightarrow> real \<Rightarrow> real \<Rightarrow> real list" where
  "spec_grid_positions values lo hi =
     sort (filter (\<lambda>p. lo \<le> p \<and> p \<le> hi) (unique_sorted_positions values 0.5))"

text \<open>
  \<open>merged_within tol values ps\<close>: \<open>ps\<close> are values, more than \<open>tol\<close> apart from each other,
  and every value lies at most \<open>tol\<close> above one of them.
\<close>

definition merged_within :: "real \<Rightarrow> real list \<Rightarrow> real list \<Rightarrow> bool" where
  "merged_within tol values ps \<longleftrightarrow>
     sorted_wrt (\<lambda>a b. a + tol < b) ps \<and> set ps \<subseteq> set values \<and>
     (\<forall>v\<in>set values. \<exists>k\<in>set ps. k \<le> v \<and> v \<le> k + tol)"

definition empty_cell_count :: "string list list \<Rightarrow> nat" where
  "empty_cell_count cells = length (filter (\<lambda>cell. strip cell = []) (concat cells))"

section \<open>Verification\<close>

subsection \<open>Amendment scan\<close>

lemma ignorecase_word_length: "ignorecase_word k w \<Longrightarrow> length w = length k"
  by (simp add: ignorecase_word_def list_all2_lengthD)

lemma ignorecase_word_all_word:
  assumes wc: "keyword_letters_are_word wc" and k: "k \<in> set AMENDMENT_WORDS"
    and m: "ignorecase_word k w"
  shows "\<forall>c\<in>set w. wc c"
proof
  fix c assume "c \<in> set w"
  then obtain i where i: "i < length w" "w ! i = c" by (auto simp: in_set_conv_nth)
  from m have len: "length k = length w" and "\<forall>i<length k. ignorecase_literal (k ! i) (w ! i)"
    by (simp_all add: ignorecase_word_def list_all2_conv_all_nth)
  with i have "ignorecase_literal (k ! i) c" and "k ! i \<in> set k" by auto
  with wc k show "wc c" unfolding keyword_letters_are_word_def by blast
qed

lemma AMENDMENT_WORDS_nonempty: "k \<in> set AMENDMENT_WORDS \<Longrightarrow> k \<noteq> []"
  unfolding AMENDMENT_WORDS_def by auto

lemma amendment_match_at_iff:
  assumes wc: "keyword_letters_are_word wc" and k: "k \<in> set AMENDMENT_WORDS"
  shows "amendment_match_at wc prev s k \<longleftrightarrow>
         (\<exists>w suf. s = w @ suf \<and> ignorecase_word k w \<and> prev_nonword wc prev \<and>
                  (suf = [] \<or> \<not> wc (hd suf)))"
proof
  assume m: "amendment_match_at wc prev s k"
  define w where "w = take (length k) s"
  define suf where "suf = drop (length k) s"
  from m have len: "length k \<le> length s" and up: "ignorecase_word k w"
    and b1: "word_boundary wc prev (first_char s)"
    and b2: "word_boundary wc (Some (last w)) (first_char suf)"
    by (simp_all add: amendment_match_at_def w_def suf_def)
  have s: "s = w @ suf" by (simp add: w_def suf_def)
  from ignorecase_word_length [OF up] AMENDMENT_WORDS_nonempty [OF k] have wne: "w \<noteq> []" by auto
  have allw: "\<forall>c\<in>set w. wc c" by (rule ignorecase_word_all_word [OF wc k up])
  from wne allw have hw: "wc (hd w)" and lw: "wc (last w)" by simp_all
  from wne s have fc: "first_char s = Some (hd w)" by (cases w) (simp_all add: first_char_def)
  from b1 fc hw have p: "prev_nonword wc prev"
    by (simp add: word_boundary_def prev_nonword_def split: option.splits)
  from b2 lw have e: "suf = [] \<or> \<not> wc (hd suf)"
    by (cases suf) (simp_all add: word_boundary_def first_char_def)
  from s up p e show "\<exists>w suf. s = w @ suf \<and> ignorecase_word k w \<and> prev_nonword wc prev \<and>
                  (suf = [] \<or> \<not> wc (hd suf))" by blast
next
  assume "\<exists>w suf. s = w @ suf \<and> ignorecase_word k w \<and> prev_nonword wc prev \<and>
                  (suf = [] \<or> \<not> wc (hd suf))"
  then obtain w suf where s: "s = w @ suf" and up: "ignorecase_word k w"
    and p: "prev_nonword wc prev" and e: "suf = [] \<or> \<not> wc (hd suf)" by blast
  have len: "length w = length k" by (rule ignorecase_word_length [OF up])
  from len AMENDMENT_WORDS_nonempty [OF k] have wne: "w \<noteq> []" by auto
  have allw: "\<forall>c\<in>set w. wc c" by (rule ignorecase_word_all_word [OF wc k up])
  from wne allw have hw: "wc (hd w)" and lw: "wc (last w)" by simp_all
  from wne s have fc: "first_char s = Some (hd w)" by (cases w) (simp_all add: first_char_def)
  have tk: "take (length k) s = w" and dr: "drop (length k) s = suf"
    using s len by simp_all
  have b1: "word_boundary wc prev (first_char s)"
    using p fc hw by (simp add: word_boundary_def prev_nonword_def split: option.splits)
  have b2: "word_boundary wc (Some (last w)) (first_char suf)"
    using e lw by (cases suf) (simp_all add: word_boundary_def first_char_def)
  show "amendment_match_at wc prev s k"
    using b1 b2 tk dr up len s by (simp add: amendment_match_at_def)
qed

lemma keyword_occurs_Nil: "\<not> keyword_occurs wc prev []"
  using AMENDMENT_WORDS_nonempty ignorecase_word_length
  by (fastforce simp: keyword_occurs_def)

lemma keyword_occurs_Cons:
  assumes wc: "keyword_letters_are_word wc"
  shows "keyword_occurs wc prev (c # cs) \<longleftrightarrow>
     (\<exists>k\<in>set AMENDMENT_WORDS. amendment_match_at wc prev (c # cs) k)
     \<or> keyword_occurs wc (Some c) cs"
proof
  assume "keyword_occurs wc prev (c # cs)"
  then obtain pre w suf k where s: "c # cs = pre @ w @ suf" and k: "k \<in> set AMENDMENT_WORDS"
    and up: "ignorecase_word k w"
    and p: "if pre = [] then prev_nonword wc prev else \<not> wc (last pre)"
    and e: "suf = [] \<or> \<not> wc (hd suf)"
    unfolding keyword_occurs_def by blast
  show "(\<exists>k\<in>set AMENDMENT_WORDS. amendment_match_at wc prev (c # cs) k)
        \<or> keyword_occurs wc (Some c) cs"
  proof (cases pre)
    case Nil
    with s p e up have "amendment_match_at wc prev (c # cs) k"
      using amendment_match_at_iff [OF wc k, of prev "c # cs"] by auto
    with k show ?thesis by blast
  next
    case (Cons d pre')
    with s have cs: "cs = pre' @ w @ suf" and d: "d = c" by simp_all
    from p Cons d have "if pre' = [] then prev_nonword wc (Some c) else \<not> wc (last pre')"
      by (auto simp: prev_nonword_def)
    with cs k up e have "keyword_occurs wc (Some c) cs" unfolding keyword_occurs_def by blast
    then show ?thesis ..
  qed
next
  assume "(\<exists>k\<in>set AMENDMENT_WORDS. amendment_match_at wc prev (c # cs) k)
          \<or> keyword_occurs wc (Some c) cs"
  then show "keyword_occurs wc prev (c # cs)"
  proof
    assume "\<exists>k\<in>set AMENDMENT_WORDS. amendment_match_at wc prev (c # cs) k"
    then obtain k where k: "k \<in> set AMENDMENT_WORDS"
      and m: "amendment_match_at wc prev (c # cs) k" by blast
    from m obtain w suf where "c # cs = w @ suf" "ignorecase_word k w" "prev_nonword wc prev"
      "suf = [] \<or> \<not> wc (hd suf)"
      using amendment_match_at_iff [OF wc k] by blast
    with k show ?thesis unfolding keyword_occurs_def
      by (intro exI [of _ "[]"] exI [of _ w] exI [of _ suf]) auto
  next
    assume "keyword_occurs wc (Some c) cs"
    then obtain pre w suf k where cs: "cs = pre @ w @ suf" and k: "k \<in> set AMENDMENT_WORDS"
      and up: "ignorecase_word k w"
      and p: "if pre = [] then prev_nonword wc (Some c) else \<not> wc (last pre)"
      and e: "suf = [] \<or> \<not> wc (hd suf)"
      unfolding keyword_occurs_def by blast
    from p have "\<not> wc (last (c # pre))" by (auto simp: prev_nonword_def)
    with cs k up e show ?thesis unfolding keyword_occurs_def
      by (intro exI [of _ "c # pre"] exI [of _ w] exI [of _ suf]) auto
  qed
qed

lemma AMENDMENT_RE_search_iff:
  assumes wc: "keyword_letters_are_word wc"
  shows "AMENDMENT_RE_search wc prev s \<noteq> None \<longleftrightarrow> keyword_occurs wc prev s"
proof (induction s arbitrary: prev)
  case Nil
  then show ?case by (simp add: keyword_occurs_Nil)
next
  case (Cons c cs)
  show ?case
  proof (cases "find (amendment_match_at wc prev (c # cs)) AMENDMENT_WORDS")
    case None
    then have "\<not> (\<exists>k\<in>set AMENDMENT_WORDS. amendment_match_at wc prev (c # cs) k)"
      by (simp add: find_None_iff)
    with None Cons.IH [of "Some c"] show ?thesis by (simp add: keyword_occurs_Cons [OF wc])
  next
    case (Some k)
    then have "k \<in> set AMENDMENT_WORDS \<and> amendment_match_at wc prev (c # cs) k"
      by (auto simp: find_Some_iff)
    with Some show ?thesis by (auto simp: keyword_occurs_Cons [OF wc])
  qed
qed

lemma whole_word_keyword_match_iff:
  "whole_word_keyword_match wc t \<longleftrightarrow> keyword_occurs wc None t"
  unfolding whole_word_keyword_match_def keyword_occurs_def prev_nonword_def
  by (intro ex_cong1) auto

lemma latin_word_class_letters: "keyword_letters_are_word latin_word_class"
  unfolding keyword_letters_are_word_def AMENDMENT_WORDS_def
  by (auto simp: ignorecase_literal_def latin_word_class_def code_of_def)

text \<open>
  Claim C9. The scan of a page fails with \<open>AMENDMENT_SCAN\<close>, tagged with the page number, exactly
  when the header text, a space and the footer text together contain a whole-word,
  case-insensitive occurrence of UTAH, STATE, AMENDED, MODIFIED or AMENDMENTS; otherwise it
  returns normally. Word characters and case-insensitive matching are those of Python's
  Unicode \<^verbatim>\<open>str\<close> patterns.
\<close>

theorem amendment_scan_whole_word:
  assumes "keyword_letters_are_word wc"
  shows "scan_for_amendment_indicators wc n header footer =
     (if whole_word_keyword_match wc (header @ codes '' '' @ footer)
      then Inl (Err AMENDMENT_SCAN (Some n)) else Inr ())"
  using AMENDMENT_RE_search_iff [OF assms, of None "header @ codes '' '' @ footer"]
  by (auto simp: scan_for_amendment_indicators_def whole_word_keyword_match_iff Let_def
      split: option.splits)

theorem amendment_scan_whole_word_witness:
  "whole_word_keyword_match latin_word_class
      (codes ''2021 IRC Utah amendments'' @ codes '' '' @ codes ''R-12'')
   \<and> whole_word_keyword_match latin_word_class
      ([0x17F] @ codes ''tate 1'' @ codes '' '' @ codes ''R-12'')
   \<and> \<not> whole_word_keyword_match latin_word_class
      ([0xE9] @ codes ''UTAH 12'' @ codes '' '' @ codes ''UTAH_1'')
   \<and> \<not> whole_word_keyword_match latin_word_class
      (codes ''STATE'' @ [0xB2] @ codes '' 12'' @ codes '' '' @ codes ''UTAH'' @ [0xE9])"
proof -
  have a: "scan_for_amendment_indicators latin_word_class 7
             (codes ''2021 IRC Utah amendments'') (codes ''R-12'')
             = Inl (Err AMENDMENT_SCAN (Some 7))"
    by code_simp
  have b: "scan_for_amendment_indicators latin_word_class 7
             ([0x17F] @ codes ''tate 1'') (codes ''R-12'') = Inl (Err AMENDMENT_SCAN (Some 7))"
    by code_simp
  have c: "scan_for_amendment_indicators latin_word_class 7
             ([0xE9] @ codes ''UTAH 12'') (codes ''UTAH_1'') = Inr ()"
    by code_simp
  have d: "scan_for_amendment_indicators latin_word_class 7
             (codes ''STATE'' @ [0xB2] @ codes '' 12'') (codes ''UTAH'' @ [0xE9]) = Inr ()"
    by code_simp
  note t = amendment_scan_whole_word [OF latin_word_class_letters, of 7]
  from a b c d show ?thesis
    using t [of "codes ''2021 IRC Utah amendments''" "codes ''R-12''"]
      t [of "[0x17F] @ codes ''tate 1''" "codes ''R-12''"]
      t [of "[0xE9] @ codes ''UTAH 12''" "codes ''UTAH_1''"]
      t [of "codes ''STATE'' @ [0xB2] @ codes '' 12''" "codes ''UTAH'' @ [0xE9]"]
    by (auto split: if_splits)
qed

subsection \<open>Section stack\<close>

declare flush_not_shallower.simps [simp del]
declare flush_all.simps [simp del]

lemma depths_increasing_sorted_wrt:
  "depths_increasing stack \<longleftrightarrow> sorted_wrt (<) (map depth stack)"
  by (auto simp: depths_increasing_def sorted_wrt_iff_nth_less)

lemma pop_and_write_stack:
  "pop_and_write st = Inr st' \<Longrightarrow>
     section_stack st' = butlast (section_stack st) \<and>
     section_occurrences st' = section_occurrences st"
  by (auto simp: pop_and_write_def write_section_def Let_def split: if_splits sum.splits)

lemma sorted_wrt_butlast: "sorted_wrt P xs \<Longrightarrow> sorted_wrt P (butlast xs)"
  by (cases xs rule: rev_cases) (simp_all add: sorted_wrt_append)

lemma pop_and_write_inv:
  assumes "pop_and_write st = Inr st'" "stack_inv st"
  shows "stack_inv st'"
proof -
  from assms(1) have s: "section_stack st' = butlast (section_stack st)"
    and o: "section_occurrences st' = section_occurrences st"
    using pop_and_write_stack by blast+
  have "set (butlast (section_stack st)) \<subseteq> set (section_stack st)"
    by (meson in_set_butlastD subsetI)
  with assms(2) s o show ?thesis
    unfolding stack_inv_def
    by (auto simp: map_butlast intro: sorted_wrt_butlast)
qed

lemma flush_not_shallower_inv:
  "flush_not_shallower d c st = Inr st' \<Longrightarrow> stack_inv st \<Longrightarrow> stack_inv st'"
proof (induction d c st rule: flush_not_shallower.induct)
  case (1 d c st)
  show ?case
  proof (cases "section_stack st \<noteq> [] \<and> d \<le> depth (last (section_stack st))
         \<and> c \<noteq> sid (last (section_stack st))")
    case True
    with "1.prems"(1) obtain st1 where p: "pop_and_write st = Inr st1"
      and r: "flush_not_shallower d c st1 = Inr st'"
      by (subst (asm) flush_not_shallower.simps) (auto split: sum.splits)
    from pop_and_write_inv [OF p "1.prems"(2)] have "stack_inv st1" .
    with "1.IH" [OF True p r] show ?thesis .
  next
    case False
    with "1.prems" show ?thesis
      by (subst (asm) flush_not_shallower.simps) auto
  qed
qed

lemma flush_not_shallower_top:
  "flush_not_shallower d c st = Inr st' \<Longrightarrow>
     section_stack st' = [] \<or> depth (last (section_stack st')) < d
       \<or> c = sid (last (section_stack st'))"
proof (induction d c st rule: flush_not_shallower.induct)
  case (1 d c st)
  show ?case
  proof (cases "section_stack st \<noteq> [] \<and> d \<le> depth (last (section_stack st))
         \<and> c \<noteq> sid (last (section_stack st))")
    case True
    with "1.prems"(1) obtain st1 where p: "pop_and_write st = Inr st1"
      and r: "flush_not_shallower d c st1 = Inr st'"
      by (subst (asm) flush_not_shallower.simps) (auto split: sum.splits)
    from "1.IH" [OF True p r] show ?thesis .
  next
    case False
    with "1.prems" show ?thesis
      by (subst (asm) flush_not_shallower.simps) auto
  qed
qed

lemma push_inv:
  assumes inv: "stack_inv st1"
    and top: "section_stack st1 = [] \<or> depth (last (section_stack st1)) < d
       \<or> c = sid (last (section_stack st1))"
    and fresh: "c \<notin> dom (section_occurrences st1)"
  shows "stack_inv (st1\<lparr>section_occurrences := (section_occurrences st1)(c \<mapsto> p),
            section_stack := section_stack st1 @ [\<lparr>sid = c, depth = d, lines = ls,
              start_page = a, end_page = b, chapter' = ch\<rparr>]\<rparr>)"
proof -
  have below: "\<forall>e\<in>set (section_stack st1). depth e < d"
  proof (cases "section_stack st1" rule: rev_cases)
    case Nil
    then show ?thesis by simp
  next
    case (snoc es e)
    with inv fresh have "c \<noteq> sid e" unfolding stack_inv_def by auto
    with top snoc have "depth e < d" by simp
    moreover from inv snoc have "\<forall>e'\<in>set es. depth e' < depth e"
      unfolding stack_inv_def by (simp add: sorted_wrt_append)
    ultimately show ?thesis using snoc by auto
  qed
  with inv show ?thesis
    unfolding stack_inv_def by (auto simp: sorted_wrt_append)
qed

lemma append_line_inv:
  assumes inv: "stack_inv st" and ne: "section_stack st \<noteq> []"
  shows "stack_inv (st\<lparr>section_stack := butlast (section_stack st) @
            [(last (section_stack st))\<lparr>lines := ls, end_page := p\<rparr>]\<rparr>)"
proof -
  from ne obtain es e where snoc: "section_stack st = es @ [e]"
    by (cases "section_stack st" rule: rev_cases) auto
  with inv show ?thesis unfolding stack_inv_def by (auto simp: sorted_wrt_append)
qed

lemma section_line_step_inv:
  assumes "section_line_step ctx l st = Inr st'" "stack_inv st"
  shows "stack_inv st'"
proof (cases "is_toc_page ctx")
  case True
  with assms show ?thesis by (simp add: section_line_step_def)
next
  case toc: False
  show ?thesis
  proof (cases "parse_section_marker_line (text' l)")
    case (Some m)
    with toc assms show ?thesis
      by (auto simp: section_line_step_def Let_def split: if_splits intro: pop_and_write_inv)
  next
    case mk: None
    show ?thesis
    proof (cases "parse_true_section_heading (text' l)")
      case None
      with mk toc assms show ?thesis
        by (auto simp: section_line_step_def Let_def split: if_splits intro: append_line_inv)
    next
      case (Some cid)
      with mk toc assms obtain st1 where
        f: "flush_not_shallower (section_id_depth cid) cid st = Inr st1"
        and fresh: "cid \<notin> dom (section_occurrences st1)"
        and st': "st' = st1\<lparr>section_occurrences := (section_occurrences st1)(cid \<mapsto> page_num ctx),
            section_stack := section_stack st1 @ [\<lparr>sid = cid, depth = section_id_depth cid,
              lines = [text' l], start_page = page_num ctx, end_page = page_num ctx,
              chapter' = current_chapter ctx\<rparr>]\<rparr>"
        by (auto simp: section_line_step_def Let_def split: if_splits sum.splits)
      from flush_not_shallower_inv [OF f assms(2)] have i1: "stack_inv st1" .
      from push_inv [OF i1 flush_not_shallower_top [OF f] fresh] st'
      show ?thesis by simp
    qed
  qed
qed

lemma section_lines_inv:
  "section_lines evs st = Inr st' \<Longrightarrow> stack_inv st \<Longrightarrow> stack_inv st'"
proof (induction evs arbitrary: st)
  case Nil
  then show ?case by simp
next
  case (Cons ev evs)
  obtain ctx l where ev: "ev = (ctx, l)" by (cases ev)
  with Cons.prems(1) obtain st1 where s: "section_line_step ctx l st = Inr st1"
    and r: "section_lines evs st1 = Inr st'"
    by (auto split: sum.splits)
  from Cons.IH [OF r section_line_step_inv [OF s Cons.prems(2)]] show ?case .
qed

lemma initial_inv: "stack_inv initial_section_state"
  by (simp add: stack_inv_def initial_section_state_def)

lemma traversal_state_inv: "traversal_state st \<Longrightarrow> stack_inv st"
proof (induction rule: traversal_state.induct)
  case initial
  show ?case by (rule initial_inv)
next
  case (after_line st ctx l st')
  then show ?case using section_line_step_inv by blast
next
  case (after_pop st st')
  then show ?case using pop_and_write_inv by blast
qed

lemma section_lines_traversal:
  "section_lines evs st = Inr st' \<Longrightarrow> traversal_state st \<Longrightarrow> traversal_state st'"
proof (induction evs arbitrary: st)
  case Nil
  then show ?case by simp
next
  case (Cons ev evs)
  obtain ctx l where ev: "ev = (ctx, l)" by (cases ev)
  with Cons.prems(1) obtain st1 where s: "section_line_step ctx l st = Inr st1"
    and r: "section_lines evs st1 = Inr st'"
    by (auto split: sum.splits)
  from Cons.IH [OF r traversal_state.after_line [OF Cons.prems(2) s]] show ?case .
qed

text \<open>
  Claim C5. In every state of the document traversal (after each line and after each
  single pop) the open-section stack has strictly increasing depth from bottom to top: of
  any two entries, the one nearer the top is strictly deeper. Pushes and pops preserve it.
\<close>

theorem section_stack_depths_increasing:
  "traversal_state st \<Longrightarrow> depths_increasing (section_stack st)"
  using traversal_state_inv [of st]
  by (simp add: depths_increasing_sorted_wrt stack_inv_def)

theorem section_stack_depths_increasing_witness:
  "\<exists>st. section_lines
          [(plain_page 12, plain_line ''R301 Design criteria'' 72),
           (plain_page 12, plain_line ''R301.1 Application. Buildings shall comply.'' 72),
           (plain_page 12, plain_line ''R301.1.1 Alternative provisions. As permitted.'' 72),
           (plain_page 13, plain_line ''and continued text'' 80),
           (plain_page 13, plain_line ''R301.2 Climatic criteria. Buildings shall.'' 72)]
          initial_section_state = Inr st
      \<and> map sid (section_stack st) = [''R301'', ''R301.2'']
      \<and> map depth (section_stack st) = [1, 2]
      \<and> depths_increasing (section_stack st)"
proof -
  let ?evs = "[(plain_page 12, plain_line ''R301 Design criteria'' 72),
           (plain_page 12, plain_line ''R301.1 Application. Buildings shall comply.'' 72),
           (plain_page 12, plain_line ''R301.1.1 Alternative provisions. As permitted.'' 72),
           (plain_page 13, plain_line ''and continued text'' 80),
           (plain_page 13, plain_line ''R301.2 Climatic criteria. Buildings shall.'' 72)]"
  have "map_sum id (\<lambda>st. (map sid (section_stack st), map depth (section_stack st)))
          (section_lines ?evs initial_section_state) = Inr ([''R301'', ''R301.2''], [1, 2])"
    by code_simp
  then obtain st where s: "section_lines ?evs initial_section_state = Inr st"
    and i: "map sid (section_stack st) = [''R301'', ''R301.2'']"
    and d: "map depth (section_stack st) = [1, 2]"
    by (cases "section_lines ?evs initial_section_state") auto
  from section_lines_traversal [OF s traversal_state.initial]
  have h: "depths_increasing (section_stack st)"
    by (rule section_stack_depths_increasing)
  from s i d h show ?thesis
    by - (rule exI [of _ st], intro conjI, assumption+)
qed

text \<open>
  Claim C1. The claim requires header position and header style for a line to be accepted
  as a section heading. The traversal in \<^verbatim>\<open>main\<close> decides by \<^verbatim>\<open>parse_true_section_heading\<close>
  alone: \<^verbatim>\<open>detect_section_start\<close>, the function that calls \<^verbatim>\<open>passes_header_position_style\<close>,
  is never called. The line below is indented 128 pt from the left margin (tolerance
  15 pt), is not bold and has the body font size, so it fails both tests; the traversal
  still opens section R301.1 with it.
\<close>

theorem heading_accepted_without_position_or_style:
  "\<not> is_header_position_any (plain_line ''R301.1 Application. Buildings shall comply.'' 200)
        \<lparr>left_x0 = 72, right_x0_p5 = 320, right_x0_min = 320, page_median_char_width = 5\<rparr>
   \<and> \<not> is_header_style (plain_line ''R301.1 Application. Buildings shall comply.'' 200) 10
   \<and> \<not> passes_header_position_style
        (plain_line ''R301.1 Application. Buildings shall comply.'' 200)
        \<lparr>left_x0 = 72, right_x0_p5 = 320, right_x0_min = 320, page_median_char_width = 5\<rparr> 10
   \<and> map_sum id (\<lambda>st. map sid (section_stack st))
        (section_line_step (plain_page 12)
           (plain_line ''R301.1 Application. Buildings shall comply.'' 200)
           initial_section_state) = Inr [''R301.1'']"
  by code_simp

subsection \<open>Rotation choice\<close>

lemma rank_key_le: "rank_key a \<le> rank_key b \<longleftrightarrow> rank_le a b"
  by (auto simp: rank_key_def rank_le_def less_eq_prod_def less_prod_def)

lemma length3E:
  assumes "length xs = 3"
  obtains a b c where "xs = [a, b, c]"
proof -
  from assms have "length xs = Suc (Suc (Suc 0))" by simp
  then have "\<exists>a b c. xs = [a, b, c]" by (auto simp: length_Suc_conv)
  then show thesis using that by blast
qed

lemma ranked_three:
  assumes "length rs = 3"
  obtains a s b where "ranked rs = [a, s, b]" "rank_le a s" "rank_le s b" "rank_le a b"
    "set rs = {a, s, b}"
proof -
  have "length (ranked rs) = 3" using assms by (simp add: ranked_def)
  then obtain a s b where r: "ranked rs = [a, s, b]" by (rule length3E)
  have "sorted (map rank_key (ranked rs))" by (simp add: ranked_def)
  with r have "rank_le a s" "rank_le s b" "rank_le a b"
    by (auto simp: rank_key_le)
  moreover have "set (ranked rs) = set rs" by (simp add: ranked_def)
  with r have "set rs = {a, s, b}" by simp
  ultimately show thesis using r that by blast
qed

lemma find_unique:
  assumes "y \<in> set xs" "P y" "\<forall>x\<in>set xs. P x \<longrightarrow> x = y"
  shows "find P xs = Some y"
  using assms
proof (induction xs)
  case Nil
  then show ?case by simp
next
  case (Cons x xs)
  show ?case
  proof (cases "P x")
    case True
    with Cons.prems(3) have "x = y" by (meson list.set_intros(1))
    with True show ?thesis by simp
  next
    case False
    with Cons.prems(1,2) have y: "y \<in> set xs" by (cases "y = x") simp_all
    from Cons.prems(3) have "\<forall>x\<in>set xs. P x \<longrightarrow> x = y" by (meson list.set_intros(2))
    from Cons.IH [OF y Cons.prems(2) this] False show ?thesis by simp
  qed
qed

lemma rotation_results_zero:
  "r \<in> set (rotation_results m) \<Longrightarrow> rotation r = 0 \<longleftrightarrow> r = hd (rotation_results m)"
  by (auto simp: rotation_results_def)

text \<open>
  Claim C3, as amended. The rotations 0, 90 and 270 are ranked lexicographically by
  (orientation score, total intersection count, total area, minus the rotation); \<open>b\<close> is
  the maximum and \<open>s\<close> the runner-up. When the maximum has no intersections nothing is
  reported: no table, no warning, no failure, whether or not the top two tie. Otherwise,
  when the top two are equal on score, intersection count and area, the run switches to the
  rotation-0 result with the tie warning if the scores are 0, and fails with
  \<open>TABLE_ROTATION_AMBIGUOUS\<close> if they are not; without such a tie the maximum is chosen.
\<close>

theorem rotation_choice_rule:
  "let rs = rotation_results m; b = last (ranked rs); s = ranked rs ! 1; r0 = hd rs
   in b \<in> set rs \<and> s \<in> set rs \<and> (\<forall>r\<in>set rs. rank_le r b) \<and> (\<forall>r\<in>set rs. r = b \<or> rank_le r s)
      \<and> rotation r0 = 0
      \<and> extract_tables_with_rotation page m =
          (if total_intersections b \<le> 0 then Inr \<lparr>chosen = None, tie = None\<rparr>
           else if \<not> equal_evidence b s then Inr \<lparr>chosen = Some b, tie = None\<rparr>
           else if orientation_score b = 0
           then Inr \<lparr>chosen = (if total_intersections r0 \<le> 0 then None else Some r0),
                     tie = Some Default_rotation_0\<rparr>
           else Inl (Err TABLE_ROTATION_AMBIGUOUS (Some page)))"
proof -
  define rs where "rs = rotation_results m"
  have len: "length rs = 3" by (simp add: rs_def rotation_results_def)
  then obtain a s b where r: "ranked rs = [a, s, b]" and as: "rank_le a s" and sb: "rank_le s b"
    and ab: "rank_le a b" and set: "set rs = {a, s, b}"
    by (rule ranked_three)
  have bb: "rank_le b b" and ss: "rank_le s s" by (simp_all add: rank_le_def)
  have r0: "rotation (hd rs) = 0" by (simp add: rs_def rotation_results_def)
  have "rs \<noteq> []" using len by auto
  then have "hd rs \<in> set rs" by (rule hd_in_set)
  with set have hd_in: "hd rs \<in> set [a, s, b]" by simp
  have "\<forall>x\<in>set rs. rotation x = 0 \<longrightarrow> x = hd rs"
    using rotation_results_zero [of _ m] unfolding rs_def by blast
  then have uniq: "\<forall>x\<in>set [a, s, b]. rotation x = 0 \<longrightarrow> x = hd rs"
    unfolding set by simp
  have f: "find (\<lambda>c. rotation c = 0) [a, s, b] = Some (hd rs)"
    by (rule find_unique [OF hd_in r0 uniq])
  have sec: "second_of [a, s, b] = Some s" by (simp add: second_of_def)
  have l: "last [a, s, b] = b" and n: "[a, s, b] ! 1 = s" by simp_all
  have ex: "extract_tables_with_rotation page m =
          (if total_intersections b \<le> 0 then Inr \<lparr>chosen = None, tie = None\<rparr>
           else if \<not> equal_evidence b s then Inr \<lparr>chosen = Some b, tie = None\<rparr>
           else if orientation_score b = 0
           then Inr \<lparr>chosen = (if total_intersections (hd rs) \<le> 0 then None else Some (hd rs)),
                     tie = Some Default_rotation_0\<rparr>
           else Inl (Err TABLE_ROTATION_AMBIGUOUS (Some page)))"
    unfolding extract_tables_with_rotation_def choose_rotation_def rs_def [symmetric] r Let_def
      sec f l
    by (simp add: equal_evidence_def)
  have mem: "b \<in> set rs" "s \<in> set rs" "\<forall>r\<in>set rs. rank_le r b"
    "\<forall>r\<in>set rs. r = b \<or> rank_le r s"
    using as sb ab bb ss unfolding set by simp_all
  show ?thesis
    unfolding Let_def rs_def [symmetric] r l n
    by (intro conjI) (fact mem r0 ex)+
qed

theorem rotation_choice_rule_witness:
  "extract_tables_with_rotation 7 unoriented_grid =
     Inr \<lparr>chosen = Some \<lparr>rotation = 0, total_intersections = 8, total_area = 400,
                          orientation_score = 0\<rparr>,
          tie = Some Default_rotation_0\<rparr>
   \<and> extract_tables_with_rotation 7 symmetric_grid = Inl (Err TABLE_ROTATION_AMBIGUOUS (Some 7))"
proof -
  have 1: "ranked (rotation_results unoriented_grid) =
      [\<lparr>rotation = 270, total_intersections = 4, total_area = 100, orientation_score = 0\<rparr>,
       \<lparr>rotation = 90, total_intersections = 8, total_area = 400, orientation_score = 0\<rparr>,
       \<lparr>rotation = 0, total_intersections = 8, total_area = 400, orientation_score = 0\<rparr>]"
    by (simp add: rotation_results_def ranked_def rank_key_def unoriented_grid_def
        less_eq_prod_def less_prod_def)
  have 2: "ranked (rotation_results symmetric_grid) =
      [\<lparr>rotation = 0, total_intersections = 4, total_area = 100, orientation_score = 0\<rparr>,
       \<lparr>rotation = 270, total_intersections = 8, total_area = 400, orientation_score = 5\<rparr>,
       \<lparr>rotation = 90, total_intersections = 8, total_area = 400, orientation_score = 5\<rparr>]"
    by (simp add: rotation_results_def ranked_def rank_key_def symmetric_grid_def
        less_eq_prod_def less_prod_def)
  have 3: "hd (rotation_results unoriented_grid) =
      \<lparr>rotation = 0, total_intersections = 8, total_area = 400, orientation_score = 0\<rparr>"
    by (simp add: rotation_results_def unoriented_grid_def)
  show ?thesis
    using rotation_choice_rule [of unoriented_grid 7] rotation_choice_rule [of symmetric_grid 7]
    unfolding Let_def 1 2 3
    by (simp add: equal_evidence_def)
qed

text \<open>
  The claim as stated fails on a page without rulings: the top two rotations tie on all
  three components with score 0, and the run neither warns nor fails.
\<close>

theorem rotation_tie_without_warning:
  "last (ranked (rotation_results blank_page)) =
      \<lparr>rotation = 0, total_intersections = 0, total_area = 0, orientation_score = 0\<rparr>
   \<and> second_of (ranked (rotation_results blank_page)) =
      Some \<lparr>rotation = 90, total_intersections = 0, total_area = 0, orientation_score = 0\<rparr>
   \<and> equal_evidence (last (ranked (rotation_results blank_page)))
        (ranked (rotation_results blank_page) ! 1)
   \<and> extract_tables_with_rotation 5 blank_page = Inr \<lparr>chosen = None, tie = None\<rparr>"
  by (simp add: extract_tables_with_rotation_def choose_rotation_def rotation_results_def ranked_def
     rank_key_def second_of_def equal_evidence_def blank_page_def less_eq_prod_def less_prod_def Let_def)

subsection \<open>Label binding\<close>

lemma sorted_map_last_max:
  "sorted (map f ys) \<Longrightarrow> x \<in> set ys \<Longrightarrow> f x \<le> f (last ys)"
proof (induction ys)
  case Nil
  then show ?case by simp
next
  case (Cons y ys)
  show ?case
  proof (cases "ys = []")
    case True
    with Cons.prems show ?thesis by simp
  next
    case False
    then have l: "last ys \<in> set ys" by simp
    from Cons.prems(1) have s: "sorted (map f ys)" and le: "\<forall>z\<in>set ys. f y \<le> f z" by simp_all
    show ?thesis
    proof (cases "x = y")
      case True
      with le l False show ?thesis by simp
    next
      case neq: False
      with Cons.prems(2) have "x \<in> set ys" by simp
      with Cons.IH [OF s] False show ?thesis by simp
    qed
  qed
qed

lemma sort_key_last_max:
  assumes "xs \<noteq> []"
  shows "last (sort_key f xs) \<in> set xs" and "x \<in> set xs \<Longrightarrow> f x \<le> f (last (sort_key f xs))"
proof -
  have ne: "sort_key f xs \<noteq> []" using assms by (metis length_0_conv length_sort)
  then have "last (sort_key f xs) \<in> set (sort_key f xs)" by (rule last_in_set)
  then show "last (sort_key f xs) \<in> set xs" by simp
  show "f x \<le> f (last (sort_key f xs))" if "x \<in> set xs"
    using sorted_map_last_max [of f "sort_key f xs" x] that by simp
qed

lemma sort_key_hd_min:
  assumes "xs \<noteq> []"
  shows "hd (sort_key f xs) \<in> set xs" and "x \<in> set xs \<Longrightarrow> f (hd (sort_key f xs)) \<le> f x"
proof -
  have ne: "sort_key f xs \<noteq> []" using assms by (metis length_0_conv length_sort)
  then have "hd (sort_key f xs) \<in> set (sort_key f xs)" by (rule hd_in_set)
  then show "hd (sort_key f xs) \<in> set xs" by simp
  show "f (hd (sort_key f xs)) \<le> f x" if "x \<in> set xs"
  proof -
    obtain y ys where e: "sort_key f xs = y # ys" using ne by (cases "sort_key f xs") auto
    have "sorted (map f (sort_key f xs))" by simp
    with e have "\<forall>z\<in>set ys. f y \<le> f z" by simp
    moreover from that have "x \<in> set (y # ys)" using e by (metis set_sort)
    ultimately show ?thesis using e by auto
  qed
qed

lemma binding_of_label:
  assumes "is_table_label bb l"
  obtains b where "binding_of l = Some b" "bound_line b = l"
  using assms unfolding is_table_label_def binding_of_def
  by (auto split: option.splits)

text \<open>
  Claim C7. For a candidate bbox \<open>(bx0, by0, bx1, by1)\<close>, among the lines that match the
  TABLE-label pattern and overlap the bbox in x: if some label has its bottom at most
  \<open>by0\<close> and at most 60 pt above it, the label bound is one of these with the greatest
  bottom; if none has, and some label has its top inside the top 15 percent band of the
  bbox, the label bound is one of these with the smallest top; if none qualifies, no label
  is bound, the table gets the identifier \<^verbatim>\<open>UNLABELED_P<page>_T<idx>\<close> and the warning
  \<^verbatim>\<open>TABLE_LABEL_MISSING\<close> is recorded.
\<close>

theorem table_label_binding_rule:
  "let labels = {l \<in> set label_lines. is_table_label (bx0, by0, bx1, by1) l};
       above = {l \<in> labels. bottom l \<le> by0 \<and> by0 - bottom l \<le> 60};
       band = {l \<in> labels. by0 \<le> top' l \<and> top' l \<le> by0 + (by1 - by0) * 0.15}
   in (above \<noteq> {} \<longrightarrow>
         (\<exists>b. find_table_label_for_bbox label_lines (bx0, by0, bx1, by1) = Some b
              \<and> binding_of (bound_line b) = Some b \<and> bound_line b \<in> above
              \<and> (\<forall>l\<in>above. bottom l \<le> bottom (bound_line b))))
    \<and> (above = {} \<and> band \<noteq> {} \<longrightarrow>
         (\<exists>b. find_table_label_for_bbox label_lines (bx0, by0, bx1, by1) = Some b
              \<and> binding_of (bound_line b) = Some b \<and> bound_line b \<in> band
              \<and> (\<forall>l\<in>band. top' (bound_line b) \<le> top' l)))
    \<and> (above = {} \<and> band = {} \<longrightarrow>
         find_table_label_for_bbox label_lines (bx0, by0, bx1, by1) = None
         \<and> label_table page idx label_lines (bx0, by0, bx1, by1) =
             (\<lparr>lab_id = ''UNLABELED_P'' @ show_int page @ ''_T'' @ show_int idx,
               lab_title = [], lab_line = None, lab_continued = False, lab_unlabeled = True\<rparr>,
              [TABLE_LABEL_MISSING page]))"
proof -
  define bb where "bb = (bx0, by0, bx1, by1)"
  define labels where "labels = filter (is_table_label bb) label_lines"
  define above where "above = filter (is_above bb) labels"
  define band where "band = filter (is_inside_band bb) labels"
  have sa: "set above = {l \<in> {l \<in> set label_lines. is_table_label bb l}.
                bottom l \<le> by0 \<and> by0 - bottom l \<le> 60}"
    by (auto simp: above_def labels_def is_above_def bb_def TABLE_LABEL_SEARCH_WINDOW_def)
  have sb: "set band = {l \<in> {l \<in> set label_lines. is_table_label bb l}.
                by0 \<le> top' l \<and> top' l \<le> by0 + (by1 - by0) * 0.15}"
    by (auto simp: band_def labels_def is_inside_band_def bb_def TABLE_LABEL_TOP_BAND_RATIO_def
        Let_def)
  have lab: "\<And>l. l \<in> set above \<or> l \<in> set band \<Longrightarrow> is_table_label bb l"
    by (auto simp: above_def band_def labels_def)
  have f: "find_table_label_for_bbox label_lines bb =
      (if above \<noteq> [] then binding_of (last (sort_key bottom above))
       else if band \<noteq> [] then binding_of (hd (sort_key top' band)) else None)"
    by (simp add: find_table_label_for_bbox_def Let_def above_def band_def labels_def)
  have 1: "\<exists>b. find_table_label_for_bbox label_lines bb = Some b
              \<and> binding_of (bound_line b) = Some b \<and> bound_line b \<in> set above
              \<and> (\<forall>l\<in>set above. bottom l \<le> bottom (bound_line b))" if ne: "set above \<noteq> {}"
  proof -
    from ne have ane: "above \<noteq> []" by auto
    let ?c = "last (sort_key bottom above)"
    have cin: "?c \<in> set above" by (rule sort_key_last_max(1) [OF ane])
    have cmax: "\<forall>l\<in>set above. bottom l \<le> bottom ?c"
      using sort_key_last_max(2) [OF ane] by blast
    from lab cin obtain b where b: "binding_of ?c = Some b" "bound_line b = ?c"
      by (blast elim: binding_of_label)
    with f ane cin cmax show ?thesis by simp
  qed
  have 2: "\<exists>b. find_table_label_for_bbox label_lines bb = Some b
              \<and> binding_of (bound_line b) = Some b \<and> bound_line b \<in> set band
              \<and> (\<forall>l\<in>set band. top' (bound_line b) \<le> top' l)"
    if e: "set above = {}" and ne: "set band \<noteq> {}"
  proof -
    from e have ae: "above = []" by simp
    from ne have bne: "band \<noteq> []" by auto
    let ?c = "hd (sort_key top' band)"
    have cin: "?c \<in> set band" by (rule sort_key_hd_min(1) [OF bne])
    have cmin: "\<forall>l\<in>set band. top' ?c \<le> top' l"
      using sort_key_hd_min(2) [OF bne] by blast
    from lab cin obtain b where b: "binding_of ?c = Some b" "bound_line b = ?c"
      by (blast elim: binding_of_label)
    with f ae bne cin cmin show ?thesis by simp
  qed
  have 3: "find_table_label_for_bbox label_lines bb = None
         \<and> label_table page idx label_lines bb =
             (\<lparr>lab_id = ''UNLABELED_P'' @ show_int page @ ''_T'' @ show_int idx,
               lab_title = [], lab_line = None, lab_continued = False, lab_unlabeled = True\<rparr>,
              [TABLE_LABEL_MISSING page])"
    if e: "set above = {}" and e2: "set band = {}"
  proof -
    from e e2 have "above = []" "band = []" by simp_all
    with f have "find_table_label_for_bbox label_lines bb = None" by simp
    then show ?thesis by (simp add: label_table_def unlabeled_id_def)
  qed
  note facts = 1 [unfolded sa] 2 [unfolded sa sb] 3 [unfolded sa sb]
  show ?thesis
    unfolding Let_def bb_def [symmetric]
    using facts by blast
qed

theorem table_label_binding_rule_witness:
  "\<exists>b. find_table_label_for_bbox
          [caption ''TABLE R301.2 CLIMATIC CRITERIA'' 90 100,
           caption ''TABLE R302.1(2) WALLS'' 150 160,
           caption ''TABLE R302.1(1) FIRE-continued'' 180 190,
           caption ''Table R302.6 Dwelling'' 205 215]
          (80, 200, 400, 500) = Some b
      \<and> bottom (caption ''TABLE R302.1(2) WALLS'' 150 160) \<le> bottom (bound_line b)"
proof -
  let ?L = "[caption ''TABLE R301.2 CLIMATIC CRITERIA'' 90 100,
           caption ''TABLE R302.1(2) WALLS'' 150 160,
           caption ''TABLE R302.1(1) FIRE-continued'' 180 190,
           caption ''Table R302.6 Dwelling'' 205 215]"
  let ?c = "caption ''TABLE R302.1(2) WALLS'' 150 160"
  have t: "is_table_label (80, 200, 400, 500) ?c" by code_simp
  have g: "bottom ?c \<le> 200 \<and> 200 - bottom ?c \<le> 60" by (simp add: caption_def)
  have m: "?c \<in> {l \<in> {l \<in> set ?L. is_table_label (80, 200, 400, 500) l}.
                 bottom l \<le> 200 \<and> 200 - bottom l \<le> 60}"
    using t g by simp
  from table_label_binding_rule [of ?L 80 200 400 500, unfolded Let_def] m
  show ?thesis by blast
qed

subsection \<open>Cell extraction\<close>

lemma merge_positions_subset: "set (merge_positions tol kept vs) \<subseteq> set vs"
  by (induction vs arbitrary: kept) auto

lemma merge_positions_spaced:
  assumes "sorted (kept # vs)"
  shows "sorted_wrt (\<lambda>a b. a + tol < b) (kept # merge_positions tol kept vs)"
  using assms
proof (induction vs arbitrary: kept)
  case Nil
  then show ?case by simp
next
  case (Cons v vs)
  from Cons.prems have kv: "kept \<le> v" and sv: "sorted (v # vs)" and skv: "sorted (kept # vs)"
    by auto
  show ?case
  proof (cases "\<bar>v - kept\<bar> > tol")
    case True
    with kv have gt: "kept + tol < v" by simp
    have ih: "sorted_wrt (\<lambda>a b. a + tol < b) (v # merge_positions tol v vs)"
      by (rule Cons.IH [OF sv])
    have "\<forall>x\<in>set (merge_positions tol v vs). v \<le> x"
      using merge_positions_subset [of tol v vs] sv by auto
    with gt have "\<forall>x\<in>set (v # merge_positions tol v vs). kept + tol < x" by auto
    with ih True show ?thesis by simp
  next
    case False
    with Cons.IH [OF skv] show ?thesis by simp
  qed
qed

lemma merge_positions_cover:
  assumes "sorted (kept # vs)" "0 \<le> tol" "v \<in> set vs"
  shows "\<exists>k\<in>set (kept # merge_positions tol kept vs). k \<le> v \<and> v \<le> k + tol"
  using assms
proof (induction vs arbitrary: kept)
  case Nil
  then show ?case by simp
next
  case (Cons u vs)
  from Cons.prems(1) have ku: "kept \<le> u" and su: "sorted (u # vs)" and sk: "sorted (kept # vs)"
    by auto
  show ?case
  proof (cases "\<bar>u - kept\<bar> > tol")
    case True
    show ?thesis
    proof (cases "v = u")
      case True
      with \<open>\<bar>u - kept\<bar> > tol\<close> Cons.prems(2) show ?thesis by auto
    next
      case False
      with Cons.prems(3) have "v \<in> set vs" by simp
      from Cons.IH [OF su Cons.prems(2) this] True show ?thesis by auto
    qed
  next
    case False
    show ?thesis
    proof (cases "v = u")
      case True
      with False ku show ?thesis by auto
    next
      case neq: False
      with Cons.prems(3) have "v \<in> set vs" by simp
      from Cons.IH [OF sk Cons.prems(2) this] False show ?thesis by auto
    qed
  qed
qed

lemma unique_sorted_positions_subset:
  "set (unique_sorted_positions values tol) \<subseteq> set values"
proof (cases "sort values")
  case Nil
  then show ?thesis by (simp add: unique_sorted_positions_def)
next
  case (Cons v vs)
  have "set (v # vs) = set values" using Cons by (metis set_sort)
  with merge_positions_subset [of tol v vs] Cons show ?thesis
    by (auto simp: unique_sorted_positions_def)
qed

lemma unique_sorted_positions_spaced:
  "sorted_wrt (\<lambda>a b. a + tol < b) (unique_sorted_positions values tol)"
proof (cases "sort values")
  case Nil
  then show ?thesis by (simp add: unique_sorted_positions_def)
next
  case (Cons v vs)
  have "sorted (v # vs)" using Cons by (metis sorted_sort)
  from merge_positions_spaced [OF this, of tol] Cons show ?thesis
    by (simp add: unique_sorted_positions_def)
qed

lemma unique_sorted_positions_cover:
  assumes "0 \<le> tol" "v \<in> set values"
  shows "\<exists>k\<in>set (unique_sorted_positions values tol). k \<le> v \<and> v \<le> k + tol"
proof (cases "sort values")
  case Nil
  then have "set values = {}" by (metis set_sort set_empty2)
  with assms show ?thesis by simp
next
  case (Cons u vs)
  have s: "sorted (u # vs)" using Cons by (metis sorted_sort)
  have "set (u # vs) = set values" using Cons by (metis set_sort)
  with assms(2) have "v = u \<or> v \<in> set vs" by auto
  then show ?thesis
  proof
    assume "v = u"
    with Cons assms(1) show ?thesis by (simp add: unique_sorted_positions_def)
  next
    assume "v \<in> set vs"
    from merge_positions_cover [OF s assms(1) this] Cons show ?thesis
      by (simp add: unique_sorted_positions_def)
  qed
qed

lemma sorted_wrt_spaced_sorted:
  assumes "sorted_wrt (\<lambda>a b. a + tol < b) xs" "0 \<le> (tol::real)"
  shows "sorted xs"
  using assms by (induction xs) (auto simp: less_imp_le)

lemma grid_positions_eq:
  "grid_positions values lo hi =
     filter (\<lambda>p. lo - 1 \<le> p \<and> p \<le> hi + 1) (unique_sorted_positions values 1)"
proof -
  have "sorted_wrt (\<lambda>a b. a + 1 < b)
          (filter (\<lambda>p. lo - 1 \<le> p \<and> p \<le> hi + 1) (unique_sorted_positions values 1))"
    by (rule sorted_wrt_filter) (rule unique_sorted_positions_spaced)
  then have "sorted (filter (\<lambda>p. lo - 1 \<le> p \<and> p \<le> hi + 1) (unique_sorted_positions values 1))"
    by (rule sorted_wrt_spaced_sorted) simp
  then show ?thesis
    by (simp add: grid_positions_def RULING_EPS_def sorted_sort_id)
qed

lemma grid_positions_spaced:
  "sorted_wrt (\<lambda>a b. a + 1 < b) (grid_positions values lo hi)"
  unfolding grid_positions_eq
  by (rule sorted_wrt_filter) (rule unique_sorted_positions_spaced)

lemma grid_positions_set:
  "set (grid_positions values lo hi) =
     {p \<in> set (unique_sorted_positions values 1). lo - 1 \<le> p \<and> p \<le> hi + 1}"
  unfolding grid_positions_eq by auto

lemma grid_rows_length:
  "length (grid_rows ws hs vs) = length hs - 1"
  by (simp add: grid_rows_def)

lemma grid_rows_row_length:
  "row \<in> set (grid_rows ws hs vs) \<Longrightarrow> length row = length vs - 1"
  by (auto simp: grid_rows_def)

lemma grid_rows_nth:
  assumes "r < length hs - 1" "c < length vs - 1"
  shows "grid_rows ws hs vs ! r ! c =
           cell_text (filter (center_in (vs ! c) (vs ! Suc c) (hs ! r) (hs ! Suc r)) ws)"
  using assms by (simp add: grid_rows_def nth_tl)

lemma unique_sorted_positions_merged:
  "merged_within 1 values (unique_sorted_positions values 1)"
  unfolding merged_within_def
  using unique_sorted_positions_spaced [of 1 "values"] unique_sorted_positions_subset [of "values" 1]
    unique_sorted_positions_cover [of 1 _ "values"]
  by simp

lemma extract_insufficient:
  assumes "bbox_rotated cand = (bx0, btop, bx1, bbottom)"
    and "length (grid_positions (map x0 (v_lines cand)) bx0 bx1) < 2
         \<or> length (grid_positions (map top' (h_lines cand)) btop bbottom) < 2"
  shows "extract_table_cells_from_grid ws cand =
           \<lparr>ex_ok = False, ex_rows = [], ex_columns = [], ex_empty_ratio = 1,
            ex_row_count = 0, ex_col_count = 0, ex_reason = ''grid_insufficient''\<rparr>"
  using assms by (simp add: extract_table_cells_from_grid_def Let_def)

lemma extract_grid:
  fixes ws :: "pdf_word list" and cand :: "'a candidate_scheme"
  assumes bb: "bbox_rotated cand = (bx0, btop, bx1, bbottom)"
    and v2: "2 \<le> length (grid_positions (map x0 (v_lines cand)) bx0 bx1)"
    and h2: "2 \<le> length (grid_positions (map top' (h_lines cand)) btop bbottom)"
  defines "rows \<equiv> grid_rows (filter (center_in bx0 bx1 btop bbottom) ws)
                    (grid_positions (map top' (h_lines cand)) btop bbottom)
                    (grid_positions (map x0 (v_lines cand)) bx0 bx1)"
  shows "ex_columns (extract_table_cells_from_grid ws cand)
           # ex_rows (extract_table_cells_from_grid ws cand) = rows"
    and "ex_row_count (extract_table_cells_from_grid ws cand) = int (length rows)"
    and "ex_col_count (extract_table_cells_from_grid ws cand) = int (length (hd rows))"
    and "ex_empty_ratio (extract_table_cells_from_grid ws cand) =
           (if sum_list (map length rows) \<noteq> 0
            then real (empty_cell_count rows) / real (sum_list (map length rows)) else 1)"
    and "ex_ok (extract_table_cells_from_grid ws cand) \<longleftrightarrow>
           2 \<le> ex_row_count (extract_table_cells_from_grid ws cand) \<and>
           2 \<le> ex_col_count (extract_table_cells_from_grid ws cand) \<and>
           ex_empty_ratio (extract_table_cells_from_grid ws cand) \<le> 0.8"
proof -
  have "length rows = length (grid_positions (map top' (h_lines cand)) btop bbottom) - 1"
    unfolding rows_def by (rule grid_rows_length)
  with h2 have ne: "rows \<noteq> []" by auto
  have e: "extract_table_cells_from_grid ws cand =
     (let total_cells = sum_list (map length rows);
          empty_cells = length (filter (\<lambda>cell. strip cell = []) (concat rows));
          empty_ratio = (if total_cells \<noteq> 0 then real empty_cells / real total_cells else 1);
          col_count = int (length (hd rows));
          row_count = int (length rows);
          ok = (row_count \<ge> 2 \<and> col_count \<ge> 2 \<and> empty_ratio \<le> TABLE_EMPTY_CELL_RATIO_MAX)
      in \<lparr>ex_ok = ok,
          ex_rows = (if length rows > 1 then tl rows else []),
          ex_columns = hd rows,
          ex_empty_ratio = empty_ratio, ex_row_count = row_count, ex_col_count = col_count,
          ex_reason = (if ok then ''ok'' else ''degenerate'')\<rparr>)"
  proof -
    have c1: "(length (grid_positions (map x0 (v_lines cand)) bx0 bx1) < 2
         \<or> length (grid_positions (map top' (h_lines cand)) btop bbottom) < 2) = False"
      using v2 h2 by simp
    have c2: "(rows \<noteq> []) = True" using ne by simp
    show ?thesis
      by (simp only: extract_table_cells_from_grid_def bb prod.case Let_def c1 if_False
          rows_def [symmetric] c2 if_True)
  qed
  show "ex_columns (extract_table_cells_from_grid ws cand)
           # ex_rows (extract_table_cells_from_grid ws cand) = rows"
    using ne by (cases rows) (simp_all add: e Let_def)
  show "ex_row_count (extract_table_cells_from_grid ws cand) = int (length rows)"
    by (simp add: e Let_def)
  show "ex_col_count (extract_table_cells_from_grid ws cand) = int (length (hd rows))"
    by (simp add: e Let_def)
  show "ex_empty_ratio (extract_table_cells_from_grid ws cand) =
           (if sum_list (map length rows) \<noteq> 0
            then real (empty_cell_count rows) / real (sum_list (map length rows)) else 1)"
    by (simp only: e Let_def empty_cell_count_def extraction.select_convs)
  show "ex_ok (extract_table_cells_from_grid ws cand) \<longleftrightarrow>
           2 \<le> ex_row_count (extract_table_cells_from_grid ws cand) \<and>
           2 \<le> ex_col_count (extract_table_cells_from_grid ws cand) \<and>
           ex_empty_ratio (extract_table_cells_from_grid ws cand) \<le> 0.8"
    by (simp add: e Let_def TABLE_EMPTY_CELL_RATIO_MAX_def)
qed

lemma sum_list_uniform:
  "\<forall>r\<in>set rows. length r = m \<Longrightarrow> sum_list (map length rows) = length rows * m"
  by (induction rows) simp_all

text \<open>
  Claim C6, as amended. For every table candidate, cell extraction builds the grid from
  unique horizontal and vertical ruling positions merged within 1.0 pt and clipped to the
  candidate bbox, assigns each word to the cell containing its center, takes the first
  grid row as the column header and subsequent rows as the body, and rejects the candidate
  exactly when row count < 2, column count < 2, or the empty-cell ratio exceeds 0.80.

  In the statement \<open>uv\<close>, \<open>uh\<close> are the merged positions and \<open>vs\<close>, \<open>hs\<close> those the grid keeps.
  The clip keeps the positions within 1 pt of the bbox; for a bbox that is the hull of the
  candidate's rulings, as \<^verbatim>\<open>detect_ruled_tables\<close> builds it, every merged position lies in
  the bbox and is kept. A cell holds the text of the words selected by a test that accepts
  every word of the bbox centred strictly inside the cell and no word centred outside it.
\<close>

theorem grid_extraction_rule:
  fixes ws :: "pdf_word list" and cand :: "'a candidate_scheme"
  assumes bb: "bbox_rotated cand = (bx0, btop, bx1, bbottom)"
  shows
    "let uv = unique_sorted_positions (map x0 (v_lines cand)) 1;
         uh = unique_sorted_positions (map top' (h_lines cand)) 1;
         vs = filter (\<lambda>p. bx0 - 1 \<le> p \<and> p \<le> bx1 + 1) uv;
         hs = filter (\<lambda>p. btop - 1 \<le> p \<and> p \<le> bbottom + 1) uh;
         res = extract_table_cells_from_grid ws cand;
         cells = ex_columns res # ex_rows res
     in merged_within 1 (map x0 (v_lines cand)) uv
      \<and> merged_within 1 (map top' (h_lines cand)) uh
      \<and> ((\<forall>l\<in>set (v_lines cand). bx0 \<le> x0 l \<and> x0 l \<le> bx1) \<longrightarrow>
            vs = uv \<and> (\<forall>p\<in>set vs. bx0 \<le> p \<and> p \<le> bx1))
      \<and> ((\<forall>l\<in>set (h_lines cand). btop \<le> top' l \<and> top' l \<le> bbottom) \<longrightarrow>
            hs = uh \<and> (\<forall>p\<in>set hs. btop \<le> p \<and> p \<le> bbottom))
      \<and> (ex_ok res \<longleftrightarrow>
           \<not> (ex_row_count res < 2 \<or> ex_col_count res < 2 \<or> ex_empty_ratio res > 0.8))
      \<and> (length vs < 2 \<or> length hs < 2 \<longrightarrow>
           ex_rows res = [] \<and> ex_columns res = [] \<and> ex_row_count res = 0
           \<and> ex_col_count res = 0 \<and> ex_empty_ratio res = 1)
      \<and> (2 \<le> length vs \<and> 2 \<le> length hs \<longrightarrow>
           ex_row_count res = int (length hs) - 1 \<and> ex_col_count res = int (length vs) - 1
           \<and> length cells = length hs - 1
           \<and> (\<forall>r<length hs - 1.
                 length (cells ! r) = length vs - 1
                 \<and> (\<forall>c<length vs - 1.
                       \<exists>sel. cells ! r ! c = cell_text (filter sel ws)
                         \<and> (\<forall>w. center_in bx0 bx1 btop bbottom w
                                 \<and> center_strictly_in (vs ! c) (vs ! Suc c) (hs ! r) (hs ! Suc r) w
                               \<longrightarrow> sel w)
                         \<and> (\<forall>w. sel w \<longrightarrow>
                               center_in (vs ! c) (vs ! Suc c) (hs ! r) (hs ! Suc r) w)))
           \<and> ex_empty_ratio res =
               real (empty_cell_count cells) / real ((length hs - 1) * (length vs - 1)))"
proof -
  define uv where "uv = unique_sorted_positions (map x0 (v_lines cand)) 1"
  define uh where "uh = unique_sorted_positions (map top' (h_lines cand)) 1"
  define vs where "vs = grid_positions (map x0 (v_lines cand)) bx0 bx1"
  define hs where "hs = grid_positions (map top' (h_lines cand)) btop bbottom"
  define res where "res = extract_table_cells_from_grid ws cand"
  define cells where "cells = ex_columns res # ex_rows res"
  define rows where "rows = grid_rows (filter (center_in bx0 bx1 btop bbottom) ws) hs vs"
  have vs_eq: "filter (\<lambda>p. bx0 - 1 \<le> p \<and> p \<le> bx1 + 1) uv = vs"
    by (simp add: vs_def uv_def grid_positions_eq)
  have hs_eq: "filter (\<lambda>p. btop - 1 \<le> p \<and> p \<le> bbottom + 1) uh = hs"
    by (simp add: hs_def uh_def grid_positions_eq)
  have m: "merged_within 1 (map x0 (v_lines cand)) uv"
    "merged_within 1 (map top' (h_lines cand)) uh"
    unfolding uv_def uh_def by (rule unique_sorted_positions_merged)+
  have hull_v: "vs = uv \<and> (\<forall>p\<in>set vs. bx0 \<le> p \<and> p \<le> bx1)"
    if h: "\<forall>l\<in>set (v_lines cand). bx0 \<le> x0 l \<and> x0 l \<le> bx1"
  proof -
    have "set uv \<subseteq> x0 ` set (v_lines cand)"
      using unique_sorted_positions_subset [of "map x0 (v_lines cand)" 1] by (simp add: uv_def)
    with h have a: "\<forall>p\<in>set uv. bx0 \<le> p \<and> p \<le> bx1" by auto
    then have "filter (\<lambda>p. bx0 - 1 \<le> p \<and> p \<le> bx1 + 1) uv = uv"
      by (intro filter_True) auto
    with vs_eq a show ?thesis by simp
  qed
  have hull_h: "hs = uh \<and> (\<forall>p\<in>set hs. btop \<le> p \<and> p \<le> bbottom)"
    if h: "\<forall>l\<in>set (h_lines cand). btop \<le> top' l \<and> top' l \<le> bbottom"
  proof -
    have "set uh \<subseteq> top' ` set (h_lines cand)"
      using unique_sorted_positions_subset [of "map top' (h_lines cand)" 1] by (simp add: uh_def)
    with h have a: "\<forall>p\<in>set uh. btop \<le> p \<and> p \<le> bbottom" by auto
    then have "filter (\<lambda>p. btop - 1 \<le> p \<and> p \<le> bbottom + 1) uh = uh"
      by (intro filter_True) auto
    with hs_eq a show ?thesis by simp
  qed
  have small: "ex_ok res = False \<and> ex_rows res = [] \<and> ex_columns res = [] \<and> ex_row_count res = 0
           \<and> ex_col_count res = 0 \<and> ex_empty_ratio res = 1"
    if "length vs < 2 \<or> length hs < 2"
    using extract_insufficient [OF bb, of ws] that by (simp add: res_def vs_def hs_def)
  have big: "ex_row_count res = int (length hs) - 1 \<and> ex_col_count res = int (length vs) - 1
           \<and> length cells = length hs - 1
           \<and> (\<forall>r<length hs - 1.
                 length (cells ! r) = length vs - 1
                 \<and> (\<forall>c<length vs - 1.
                       \<exists>sel. cells ! r ! c = cell_text (filter sel ws)
                         \<and> (\<forall>w. center_in bx0 bx1 btop bbottom w
                                 \<and> center_strictly_in (vs ! c) (vs ! Suc c) (hs ! r) (hs ! Suc r) w
                               \<longrightarrow> sel w)
                         \<and> (\<forall>w. sel w \<longrightarrow>
                               center_in (vs ! c) (vs ! Suc c) (hs ! r) (hs ! Suc r) w)))
           \<and> ex_empty_ratio res =
               real (empty_cell_count cells) / real ((length hs - 1) * (length vs - 1))
           \<and> (ex_ok res \<longleftrightarrow> 2 \<le> ex_row_count res \<and> 2 \<le> ex_col_count res
                 \<and> ex_empty_ratio res \<le> 0.8)"
    if v2: "2 \<le> length vs" and h2: "2 \<le> length hs"
  proof -
    note g0 = extract_grid [OF bb v2 [unfolded vs_def] h2 [unfolded hs_def], of ws,
        folded vs_def hs_def res_def]
    note g = g0 [folded rows_def]
    have c: "cells = rows" using g(1) by (simp add: cells_def)
    have len: "length rows = length hs - 1" by (simp add: rows_def grid_rows_length)
    have rl: "\<forall>row\<in>set rows. length row = length vs - 1"
      using grid_rows_row_length by (auto simp: rows_def)
    from len h2 have ne: "rows \<noteq> []" by auto
    then have "hd rows \<in> set rows" by simp
    with rl have hl: "length (hd rows) = length vs - 1" by blast
    have tot: "sum_list (map length rows) = (length hs - 1) * (length vs - 1)"
      using sum_list_uniform [OF rl] len by simp
    have pos: "(length hs - 1) * (length vs - 1) \<noteq> 0" using v2 h2 by simp
    have cell: "\<exists>sel. rows ! r ! c = cell_text (filter sel ws)
                         \<and> (\<forall>w. center_in bx0 bx1 btop bbottom w
                                 \<and> center_strictly_in (vs ! c) (vs ! Suc c) (hs ! r) (hs ! Suc r) w
                               \<longrightarrow> sel w)
                         \<and> (\<forall>w. sel w \<longrightarrow>
                               center_in (vs ! c) (vs ! Suc c) (hs ! r) (hs ! Suc r) w)"
      if r: "r < length hs - 1" and cc: "c < length vs - 1" for r c
    proof -
      let ?sel = "\<lambda>w. center_in bx0 bx1 btop bbottom w
                     \<and> center_in (vs ! c) (vs ! Suc c) (hs ! r) (hs ! Suc r) w"
      have "rows ! r ! c = cell_text (filter ?sel ws)"
        using r cc by (simp add: rows_def grid_rows_nth)
      moreover have "\<forall>w. center_in bx0 bx1 btop bbottom w
                       \<and> center_strictly_in (vs ! c) (vs ! Suc c) (hs ! r) (hs ! Suc r) w
                     \<longrightarrow> ?sel w"
        by (simp add: center_in_def center_strictly_in_def)
      ultimately show ?thesis by blast
    qed
    have nth: "\<forall>r<length hs - 1.
                 length (rows ! r) = length vs - 1
                 \<and> (\<forall>c<length vs - 1.
                       \<exists>sel. rows ! r ! c = cell_text (filter sel ws)
                         \<and> (\<forall>w. center_in bx0 bx1 btop bbottom w
                                 \<and> center_strictly_in (vs ! c) (vs ! Suc c) (hs ! r) (hs ! Suc r) w
                               \<longrightarrow> sel w)
                         \<and> (\<forall>w. sel w \<longrightarrow>
                               center_in (vs ! c) (vs ! Suc c) (hs ! r) (hs ! Suc r) w))"
      using rl len cell by simp
    have r1: "ex_row_count res = int (length hs) - 1" using g(2) len h2 by simp
    have r2: "ex_col_count res = int (length vs) - 1" using g(3) hl v2 by simp
    have r3: "ex_empty_ratio res =
               real (empty_cell_count cells) / real ((length hs - 1) * (length vs - 1))"
      using g(4) tot pos c by simp
    have r5: "ex_ok res \<longleftrightarrow> 2 \<le> ex_row_count res \<and> 2 \<le> ex_col_count res
                 \<and> ex_empty_ratio res \<le> 0.8"
      by (rule g(5))
    have l: "length cells = length hs - 1" using len c by simp
    from r1 r2 r3 r5 l nth [folded c] show ?thesis by blast
  qed
  have ok: "ex_ok res \<longleftrightarrow>
           \<not> (ex_row_count res < 2 \<or> ex_col_count res < 2 \<or> ex_empty_ratio res > 0.8)"
  proof (cases "length vs < 2 \<or> length hs < 2")
    case True
    from small [OF True] show ?thesis by simp
  next
    case False
    then have "2 \<le> length vs" "2 \<le> length hs" by simp_all
    from big [OF this] show ?thesis by auto
  qed
  from m ok small big hull_v hull_h show ?thesis
    unfolding Let_def uv_def [symmetric] uh_def [symmetric] vs_eq hs_eq
      res_def [symmetric] cells_def [symmetric]
    by blast
qed

theorem grid_extraction_rule_witness:
  "ex_row_count (extract_table_cells_from_grid sample_words (sample_grid [0, 50, 100])) = 2
   \<and> ex_col_count (extract_table_cells_from_grid sample_words (sample_grid [0, 50, 100])) = 2
   \<and> ex_ok (extract_table_cells_from_grid sample_words (sample_grid [0, 50, 100]))"
proof -
  let ?res = "extract_table_cells_from_grid sample_words (sample_grid [0, 50, 100])"
  let ?vs = "filter (\<lambda>p. 0 - 1 \<le> p \<and> p \<le> 100 + 1)
             (unique_sorted_positions (map x0 (v_lines (sample_grid [0, 50, 100]))) 1)"
  let ?hs = "filter (\<lambda>p. 0 - 1 \<le> p \<and> p \<le> 40 + 1)
             (unique_sorted_positions (map top' (h_lines (sample_grid [0, 50, 100]))) 1)"
  have bb: "bbox_rotated (sample_grid [0, 50, 100]) = (0, 0, 100, 40)"
    by (simp add: sample_grid_def)
  have v: "length ?vs = 3" by code_simp
  have h: "length ?hs = 3" by code_simp
  have r: "ex_empty_ratio ?res = 0" by code_simp
  note t = grid_extraction_rule [OF bb, of sample_words, unfolded Let_def]
  note ok = t [THEN conjunct2, THEN conjunct2, THEN conjunct2, THEN conjunct2, THEN conjunct1]
  note big = t [THEN conjunct2, THEN conjunct2, THEN conjunct2, THEN conjunct2,
      THEN conjunct2, THEN conjunct2]
  have l: "2 \<le> length ?vs \<and> 2 \<le> length ?hs" unfolding v h by simp
  note b = big [THEN mp, OF l]
  have rc: "ex_row_count ?res = 2" using b [THEN conjunct1] unfolding h by simp
  have cc: "ex_col_count ?res = 2" using b [THEN conjunct2, THEN conjunct1] unfolding v by simp
  have "ex_ok ?res" unfolding ok rc cc r by simp
  with rc cc show ?thesis by (intro conjI)
qed

text \<open>
  The claim as stated fails for vertical rulings at 0, 1 and 100: merged within 0.5 pt
  they are three positions, so two columns; the code merges 0 and 1, finds one column
  and rejects the candidate.
\<close>

theorem grid_merges_positions_within_one_point:
  "spec_grid_positions (map x0 (v_lines (sample_grid [0, 1, 100]))) 0 100 = [0, 1, 100]
   \<and> grid_positions (map x0 (v_lines (sample_grid [0, 1, 100]))) 0 100 = [0, 100]
   \<and> ex_col_count (extract_table_cells_from_grid sample_words (sample_grid [0, 1, 100])) = 1
   \<and> ex_row_count (extract_table_cells_from_grid sample_words (sample_grid [0, 1, 100])) = 2
   \<and> ex_empty_ratio (extract_table_cells_from_grid sample_words (sample_grid [0, 1, 100])) = 0
   \<and> ex_ok (extract_table_cells_from_grid sample_words (sample_grid [0, 1, 100])) = False"
  by code_simp

end
